theory Spec2Isabelle
  imports Main
begin

section \<open>Constants of lz78.h and lz78.c\<close>

abbreviation DICT_CODE_EOF :: nat where "DICT_CODE_EOF \<equiv> 256"
abbreviation DICT_CODE_SIZE :: nat where "DICT_CODE_SIZE \<equiv> 257"
abbreviation DICT_CODE_START :: nat where "DICT_CODE_START \<equiv> 258"
abbreviation DICT_CODE_STOP :: nat where "DICT_CODE_STOP \<equiv> 259"

abbreviation DICT_SIZE_MIN :: nat where "DICT_SIZE_MIN \<equiv> 260"
abbreviation DICT_SIZE_DEFAULT :: nat where "DICT_SIZE_DEFAULT \<equiv> 4096"
abbreviation DICT_SIZE_MAX :: nat where "DICT_SIZE_MAX \<equiv> 1048576"

text \<open>
  The C value \<open>(uint32_t) -1\<close> that \<open>cur_node\<close> holds while no prefix is matched, and
  the value \<open>EOF\<close> of \<open>fgetc\<close>.
\<close>

abbreviation NO_NODE :: nat where "NO_NODE \<equiv> 4294967295"
abbreviation EOF :: int where "EOF \<equiv> - 1"

text \<open>The return codes of lz78.h that the decompressor can produce.\<close>

datatype lz78_status =
  LZ78_SUCCESS | LZ78_ERROR_DICTIONARY | LZ78_ERROR_EAGAIN | LZ78_ERROR_DECOMPRESS

definition DICT_LIMIT :: "nat \<Rightarrow> nat" where
  "DICT_LIMIT x =
     (if x < DICT_SIZE_MIN + 1 then DICT_SIZE_MIN + 1
      else if x > DICT_SIZE_MAX then DICT_SIZE_MAX else x)"

definition DICT_SIZE_THRESHOLD :: "nat \<Rightarrow> nat" where
  "DICT_SIZE_THRESHOLD x = x * 8 div 10"

text \<open>
  Unsigned 32-bit values are natural numbers below \<open>2 ^ 32\<close>. The two conversions of an
  \<open>int\<close> argument (to \<open>uint16_t\<close> and to \<open>uint32_t\<close>) and the decrement, which wraps at
  zero, are written out.
\<close>

definition u16 :: "int \<Rightarrow> nat" where
  "u16 c = nat (c mod 65536)"

definition u32 :: "int \<Rightarrow> nat" where
  "u32 c = nat (c mod 4294967296)"

definition sub1 :: "nat \<Rightarrow> nat" where
  "sub1 x = (if x = 0 then 4294967295 else x - 1)"

section \<open>bitlen\<close>

text \<open>\<open>while (i) { n++; i >>= 1; }\<close>\<close>

fun bitlen :: "nat \<Rightarrow> nat" where
  "bitlen i = (if i = 0 then 0 else Suc (bitlen (i div 2)))"

declare bitlen.simps [simp del]

section \<open>The compressor's dictionary: a hash table with linear probing\<close>

record ht_entry =
  used :: bool
  parent :: nat
  label :: nat
  child :: nat

text \<open>
  The table \<open>root\<close> is an array of \<open>d_size\<close> entries; it is modelled by the function from
  an index to the entry in that cell. Every index the compressor's dictionary uses is
  reduced modulo \<open>d_size\<close> or bounded by a loop over \<open>i < d_size\<close>, so no access leaves the
  array; the cells from \<open>d_size\<close> on are not part of it and are never read.
\<close>

record ht_dictionary =
  root :: "nat \<Rightarrow> ht_entry"
  cur_node :: nat
  prev_node :: nat
  d_size :: nat
  d_thr :: nat
  d_next :: nat

text \<open>The entry that \<open>calloc\<close> and \<open>memset\<close> leave in every slot.\<close>

definition ht_zero :: ht_entry where
  "ht_zero = \<lparr>used = False, parent = 0, label = 0, child = 0\<rparr>"

text \<open>
  \<open>ht_dictionary_new\<close>, for an allocation that succeeds. \<open>prev_node\<close> is not initialised by
  the source; it is written before it is read, and starts here as 0.
\<close>

definition ht_dictionary_new :: "nat \<Rightarrow> ht_dictionary" where
  "ht_dictionary_new dsize =
     (let ds = DICT_LIMIT dsize in
      \<lparr>root = (\<lambda>i. ht_zero), cur_node = NO_NODE, prev_node = 0,
       d_size = ds, d_thr = DICT_SIZE_THRESHOLD ds, d_next = DICT_SIZE_MIN\<rparr>)"

definition ht_dictionary_reset :: "ht_dictionary \<Rightarrow> ht_dictionary" where
  "ht_dictionary_reset d =
     d\<lparr>root := (\<lambda>i. ht_zero), d_next := DICT_SIZE_MIN, cur_node := NO_NODE\<rparr>"

text \<open>
  The Bernstein hash of \<open>ht_dictionary_update\<close>: four rounds of
  \<open>hash = ((hash << 5) + hash) + (key & 0xFF); key >>= 8\<close> on 32-bit values, then
  \<open>hash %= d_size\<close>.
\<close>

definition hash_round :: "nat \<Rightarrow> nat \<Rightarrow> nat" where
  "hash_round hash key = (hash * 32 + hash + key mod 256) mod 4294967296"

fun bernstein :: "nat \<Rightarrow> nat \<Rightarrow> nat \<Rightarrow> nat" where
  "bernstein 0 key hash = hash"
| "bernstein (Suc n) key hash = bernstein n (key div 256) (hash_round hash key)"

definition ht_hash :: "nat \<Rightarrow> nat \<Rightarrow> nat \<Rightarrow> nat" where
  "ht_hash dsize lab cur =
     bernstein 4 ((lab * 2 ^ bitlen dsize + cur) mod 4294967296) 0 mod dsize"

text \<open>
  The loop \<open>while (d->root[hash].used)\<close>. It leaves with \<open>(True, hash)\<close> at a slot that
  holds the pair searched for, with \<open>(False, hash)\<close> at the first free slot, and it has
  no other exit: on a table without either it does not return, which is the value
  \<open>None\<close>.
\<close>

partial_function (option) ht_search ::
  "(nat \<Rightarrow> ht_entry) \<Rightarrow> nat \<Rightarrow> nat \<Rightarrow> nat \<Rightarrow> nat \<Rightarrow> (bool \<times> nat) option" where
  "ht_search rt dsize cur lab hash =
     (if used (rt hash) then
        (if parent (rt hash) = cur \<and> label (rt hash) = lab then Some (True, hash)
         else ht_search rt dsize cur lab ((hash + 1) mod dsize))
      else Some (False, hash))"

declare ht_search.simps [code]

text \<open>
  \<open>ht_dictionary_update\<close> returns \<open>-1\<close> when the current node moved and \<open>0\<close> when a new
  entry was installed.
\<close>

definition ht_dictionary_update :: "ht_dictionary \<Rightarrow> nat \<Rightarrow> (int \<times> ht_dictionary) option" where
  "ht_dictionary_update d lab =
     (let d1 = d\<lparr>prev_node := cur_node d\<rparr> in
      if cur_node d1 = NO_NODE then Some (- 1, d1\<lparr>cur_node := lab\<rparr>)
      else
        (case ht_search (root d1) (d_size d1) (cur_node d1) lab
                (ht_hash (d_size d1) lab (cur_node d1)) of
           None \<Rightarrow> None
         | Some (found, hash) \<Rightarrow>
             if found then Some (- 1, d1\<lparr>cur_node := child (root d1 hash)\<rparr>)
             else Some (0, d1\<lparr>root := (root d1)(hash :=
                                 \<lparr>used = True, parent = prev_node d1, label = lab,
                                  child = d_next d1\<rparr>),
                               cur_node := lab, d_next := d_next d1 + 1\<rparr>)))"

section \<open>The compressor\<close>

record lz78_c =
  completed :: bool
  d_size :: nat
  main :: ht_dictionary
  secondary :: ht_dictionary
  bitbuf :: nat
  n_bits :: nat

text \<open>
  Lines 337 to 359 of \<open>compress_byte\<close>: both dictionaries are updated, the code is left
  in \<open>bitbuf\<close>, and the dictionaries are swapped when the main one is full. The two
  dictionaries are separate allocations, so the exchange of the pointers is the exchange
  of the two fields.
\<close>

definition compress_update :: "lz78_c \<Rightarrow> int \<Rightarrow> lz78_c option" where
  "compress_update st c =
     (case ht_dictionary_update (main st) (u16 c) of
        None \<Rightarrow> None
      | Some (r, m) \<Rightarrow>
          if r \<noteq> 0 then
            (if d_next m \<ge> d_thr m then
               (case ht_dictionary_update (secondary st) (u16 c) of
                  None \<Rightarrow> None
                | Some (r2, s) \<Rightarrow> Some (st\<lparr>main := m, secondary := s\<rparr>))
             else Some (st\<lparr>main := m\<rparr>))
          else
            (let st1 = st\<lparr>bitbuf := prev_node m, n_bits := bitlen (sub1 (d_next m))\<rparr>;
                 swap = (d_next m = ht_dictionary.d_size m);
                 m2 = (if swap then (secondary st)\<lparr>cur_node := u32 c\<rparr> else m);
                 s2 = (if swap then ht_dictionary_reset m else secondary st)
             in if d_next m2 \<ge> d_thr m2 then
                  (case ht_dictionary_update s2 (u16 c) of
                     None \<Rightarrow> None
                   | Some (r2, s3) \<Rightarrow> Some (st1\<lparr>main := m2, secondary := s3\<rparr>))
                else Some (st1\<lparr>main := m2, secondary := s2\<rparr>)))"

definition compress_byte :: "lz78_c \<Rightarrow> int \<Rightarrow> lz78_c option" where
  "compress_byte st c_in =
     (let d_main = main st in
      if cur_node d_main = DICT_CODE_EOF then
        Some (st\<lparr>bitbuf := cur_node d_main, n_bits := bitlen (d_next d_main),
                 main := d_main\<lparr>cur_node := DICT_CODE_STOP\<rparr>\<rparr>)
      else if cur_node d_main = DICT_CODE_STOP then Some (st\<lparr>completed := True\<rparr>)
      else
        compress_update
          (if cur_node d_main = DICT_CODE_START then
             st\<lparr>bitbuf := ht_dictionary.d_size d_main, n_bits := bitlen DICT_SIZE_MAX,
                main := d_main\<lparr>cur_node := NO_NODE\<rparr>\<rparr>
           else st)
          (if c_in = EOF then int DICT_CODE_EOF else c_in))"

text \<open>\<open>lz78_new\<close> in mode \<open>LZ78_MODE_COMPRESS\<close>, for allocations that succeed.\<close>

definition lz78_new_c :: "nat \<Rightarrow> lz78_c" where
  "lz78_new_c dsize =
     (let ds = DICT_LIMIT (if dsize = 0 then DICT_SIZE_DEFAULT else dsize) in
      \<lparr>completed = False, d_size = ds,
       main = (ht_dictionary_new ds)\<lparr>cur_node := DICT_CODE_START\<rparr>,
       secondary = ht_dictionary_new ds,
       bitbuf = DICT_CODE_START, n_bits = bitlen DICT_SIZE_MIN\<rparr>)"

section \<open>The bit stream\<close>

text \<open>
  The stream written by \<open>bit_write\<close> and read by \<open>bit_read\<close> is the list of its bits, in
  the order of the file: bit 0 of a byte first. The two functions are called on the
  address of the 32-bit \<open>bitbuf\<close> at offset 0, so on a little-endian host the bits
  transferred are the low \<open>n_bits\<close> bits of the value, least significant first. The
  descriptors are blocking here: a write transfers all its bits, and a read falls short
  only at the end of the file.
\<close>

fun le_bits :: "nat \<Rightarrow> nat \<Rightarrow> bool list" where
  "le_bits 0 v = []"
| "le_bits (Suc n) v = odd v # le_bits n (v div 2)"

fun le_val :: "bool list \<Rightarrow> nat" where
  "le_val [] = 0"
| "le_val (b # bs) = (if b then 1 else 0) + 2 * le_val bs"

definition bit_write :: "bool list \<Rightarrow> nat \<Rightarrow> nat \<Rightarrow> bool list" where
  "bit_write out v n = out @ le_bits n v"

text \<open>\<open>bit_close\<close> pads the last byte; the buffer comes from \<open>calloc\<close>, so with zeros.\<close>

definition bit_close :: "bool list \<Rightarrow> bool list" where
  "bit_close out = out @ replicate ((8 - length out mod 8) mod 8) False"

text \<open>
  The loop of \<open>lz78_compress\<close>: the pending bits are written, the next byte is read
  (\<open>fgetc\<close> returns \<open>EOF\<close> from the end of the input on), and \<open>compress_byte\<close> runs,
  until it reports completion. The result is the content of the output file.
\<close>

definition drain :: "lz78_c \<Rightarrow> lz78_c" where
  "drain st = st\<lparr>bitbuf := bitbuf st div 2 ^ n_bits st, n_bits := 0\<rparr>"

partial_function (option) compress_loop ::
  "lz78_c \<Rightarrow> int list \<Rightarrow> bool list \<Rightarrow> bool list option" where
  "compress_loop st inp out =
     (case compress_byte (drain st) (case inp of [] \<Rightarrow> EOF | c # cs \<Rightarrow> c) of
        None \<Rightarrow> None
      | Some st' \<Rightarrow>
          if completed st' then Some (bit_close (bit_write out (bitbuf st) (n_bits st)))
          else compress_loop st' (tl inp) (bit_write out (bitbuf st) (n_bits st)))"

declare compress_loop.simps [code]

definition lz78_compress :: "nat \<Rightarrow> int list \<Rightarrow> bool list option" where
  "lz78_compress dsize inp = compress_loop (lz78_new_c dsize) inp []"

section \<open>The decompressor's dictionary\<close>

record entry =
  parent :: nat
  label :: nat

text \<open>
  \<open>root\<close> is an array of \<open>d_size\<close> entries and \<open>bytebuf\<close> an array of \<open>bytebuf_size\<close>
  bytes; \<open>bytebuf_size\<close> is not a field of the C structure, it records the size that
  \<open>dictionary_new\<close> passes to \<open>malloc\<close> for the flexible array. The decompressor indexes
  both arrays with values read from the input, without a check; an access outside an
  array has no defined result in C and is the fault \<open>Out_Of_Bounds\<close> here, and reading
  through a null pointer is the fault \<open>Null_Pointer\<close>.
\<close>

datatype fault = Out_Of_Bounds | Null_Pointer

record dictionary =
  root :: "nat \<Rightarrow> entry"
  d_size :: nat
  d_thr :: nat
  d_min :: nat
  d_next :: nat
  n_bytes :: nat
  offset :: nat
  bytebuf :: "nat \<Rightarrow> nat"
  bytebuf_size :: nat

text \<open>
  \<open>dictionary_new\<close>, for allocations that succeed. The buffer is allocated with the size
  requested and the table with the size after \<open>DICT_LIMIT\<close>. The source writes the
  entries 0 to 259, \<open>d_size\<close>, \<open>d_thr\<close>, \<open>d_min\<close> and \<open>d_next\<close>. The entries from 260 on,
  the buffer, \<open>n_bytes\<close> and \<open>offset\<close> are not initialised: they keep what the memory
  that \<open>malloc\<close> returned holds, which is the argument \<open>mem\<close>.
\<close>

definition dictionary_new :: "dictionary \<Rightarrow> nat \<Rightarrow> dictionary" where
  "dictionary_new mem dsize =
     (let ds = DICT_LIMIT dsize in
      mem\<lparr>root := (\<lambda>i. if i < DICT_SIZE_MIN then \<lparr>parent = 0, label = i\<rparr> else root mem i),
          d_size := ds, d_thr := DICT_SIZE_THRESHOLD ds, d_min := DICT_SIZE_MIN,
          d_next := DICT_SIZE_MIN, bytebuf_size := dsize\<rparr>)"

definition dictionary_reset :: "dictionary \<Rightarrow> dictionary" where
  "dictionary_reset d = d\<lparr>d_min := DICT_SIZE_MIN, d_next := DICT_SIZE_MIN\<rparr>"

text \<open>
  The loop "Recover original sequence" of \<open>dictionary_update\<close>:
  \<open>d->bytebuf[i--] = d->root[p].label; if (p < DICT_SIZE_MIN || i == 0) break;
  p = d->root[p].parent\<close>. The label is stored into a \<open>char\<close>, which keeps its low byte;
  the byte is held here as a number from 0 to 255 (where plain \<open>char\<close> is signed, a
  label read back from the buffer differs above its low byte, which is all that is ever
  written out). \<open>i--\<close> is a 32-bit decrement. The result is the buffer and the final \<open>i\<close>.
\<close>

function recover ::
  "(nat \<Rightarrow> entry) \<Rightarrow> nat \<Rightarrow> (nat \<Rightarrow> nat) \<Rightarrow> nat \<Rightarrow> nat \<Rightarrow> nat \<Rightarrow> fault + ((nat \<Rightarrow> nat) \<times> nat)" where
  "recover rt dsize buf bsize i p =
     (if p < dsize \<and> i < bsize then
        (if p < DICT_SIZE_MIN \<or> sub1 i = 0 then Inr (buf(i := label (rt p) mod 256), sub1 i)
         else recover rt dsize (buf(i := label (rt p) mod 256)) bsize (sub1 i) (parent (rt p)))
      else Inl Out_Of_Bounds)"
  by pat_completeness auto
termination
  by (relation "measure (\<lambda>(rt, dsize, buf, bsize, i, p). if i = 0 then 4294967296 else i)")
     (auto simp: sub1_def)

declare recover.simps [simp del]

text \<open>
  \<open>dictionary_update\<close>. The local \<open>d_size\<close> of the source is \<open>d->d_size - 1\<close>, named \<open>top\<close>
  here. \<open>bytebuf[i + 1]\<close> is the cell the loop wrote last and \<open>bytebuf[top]\<close> the one it
  wrote first, so both are inside the buffer once the loop has returned.
\<close>

definition dictionary_update :: "dictionary \<Rightarrow> nat \<Rightarrow> fault + dictionary" where
  "dictionary_update d code =
     (let top = sub1 (d_size d) in
      case recover (root d) (d_size d) (bytebuf d) (bytebuf_size d) top code of
        Inl f \<Rightarrow> Inl f
      | Inr (buf, i) \<Rightarrow>
          (let first = (i + 1) mod 4294967296;
               buf1 = (if code \<ge> d_min d \<and> code = sub1 (d_next d)
                       then buf(top := buf first) else buf);
               nb = (top + 4294967296 - i) mod 4294967296;
               ofs = (top + 1 + 4294967296 - nb) mod 4294967296
           in if d_next d > d_min d \<and> \<not> d_next d - 1 < d_size d then Inl Out_Of_Bounds
              else if \<not> d_next d < d_size d then Inl Out_Of_Bounds
              else
                (let rt1 = (if d_next d > d_min d
                            then (root d)(d_next d - 1 :=
                                   (root d (d_next d - 1))\<lparr>label := buf1 first\<rparr>)
                            else root d);
                     rt2 = rt1(d_next d := (rt1 (d_next d))\<lparr>parent := code\<rparr>)
                 in Inr (d\<lparr>root := rt2, bytebuf := buf1, n_bytes := nb, offset := ofs,
                           d_next := d_next d + 1\<rparr>))))"

text \<open>The bytes \<open>bytebuf[offset .. offset + n_bytes)\<close> that the driver writes out.\<close>

definition published :: "dictionary \<Rightarrow> nat list" where
  "published d = map (\<lambda>i. bytebuf d (offset d + i)) [0..<n_bytes d]"

section \<open>The decompressor\<close>

record lz78_d =
  completed :: bool
  main :: "dictionary option"
  secondary :: "ht_dictionary option"
  bitbuf :: nat
  n_bits :: nat

text \<open>
  What the program does not decide: whether the next \<open>dictionary_new\<close> and the next
  \<open>ht_dictionary_new\<close> find memory, and what the memory that \<open>malloc\<close> returns holds, for a
  dictionary (\<open>dictionary_mem\<close>) and for the state of the decompressor (\<open>instance_mem\<close>).
  It is an argument of \<open>lz78_new\<close> and of \<open>decompress_code\<close>, the same for all calls of
  one run.
\<close>

record heap =
  dictionary_ok :: bool
  ht_dictionary_ok :: bool
  dictionary_mem :: dictionary
  instance_mem :: lz78_d

text \<open>
  \<open>lz78_new\<close> in mode \<open>LZ78_MODE_DECOMPRESS\<close>, for allocations that succeed. The source
  sets \<open>completed\<close> and \<open>main\<close> only: \<open>secondary\<close>, \<open>bitbuf\<close> and \<open>n_bits\<close> keep what the
  memory holds. For the pointer \<open>secondary\<close> that is \<open>None\<close> when the memory happens to
  hold the null pointer and otherwise some table; that an access through such a pointer,
  or its \<open>free\<close>, may fail is not modelled.
\<close>

definition lz78_new_d :: "heap \<Rightarrow> lz78_d" where
  "lz78_new_d hp =
     (instance_mem hp)\<lparr>completed := False,
                       main := Some (dictionary_new (dictionary_mem hp) DICT_SIZE_MIN)\<rparr>"

text \<open>
  The loop of \<open>decompress_code\<close> that gives the bytes just decoded to the secondary
  dictionary, one \<open>ht_dictionary_update\<close> per byte.
\<close>

fun ht_feed :: "ht_dictionary \<Rightarrow> nat list \<Rightarrow> ht_dictionary option" where
  "ht_feed s [] = Some s"
| "ht_feed s (c # cs) =
     (case ht_dictionary_update s c of None \<Rightarrow> None | Some (r, s') \<Rightarrow> ht_feed s' cs)"

text \<open>
  The loop of the dictionaries' swap:
  \<open>for (i = 0; i < d_sec->d_size && d_sec->d_next; i++)\<close>, which copies every used entry
  of the secondary table to \<open>d_main->root[child]\<close> and decrements \<open>d_sec->d_next\<close>.
\<close>

function copy_entries ::
  "dictionary \<Rightarrow> ht_dictionary \<Rightarrow> nat \<Rightarrow> fault + (dictionary \<times> ht_dictionary)" where
  "copy_entries m s i =
     (if i < ht_dictionary.d_size s \<and> ht_dictionary.d_next s \<noteq> 0 then
        (if used (ht_dictionary.root s i) then
           (if child (ht_dictionary.root s i) < d_size m then
              copy_entries
                (m\<lparr>root := (root m)(child (ht_dictionary.root s i) :=
                     \<lparr>parent = ht_entry.parent (ht_dictionary.root s i),
                      label = ht_entry.label (ht_dictionary.root s i)\<rparr>)\<rparr>)
                (s\<lparr>ht_dictionary.d_next := ht_dictionary.d_next s - 1\<rparr>) (i + 1)
            else Inl Out_Of_Bounds)
         else copy_entries m s (i + 1))
      else Inr (m, s))"
  by pat_completeness auto
termination
  by (relation "measure (\<lambda>(m, s, i). ht_dictionary.d_size s - i)") auto

declare copy_entries.simps [simp del]

text \<open>Lines 416 to 430 of \<open>decompress_code\<close>, entered when \<open>d_next = d_size\<close>.\<close>

definition rotate :: "dictionary \<Rightarrow> ht_dictionary \<Rightarrow> fault + (dictionary \<times> ht_dictionary)" where
  "rotate m s =
     (case copy_entries
             ((dictionary_reset m)\<lparr>d_min := ht_dictionary.d_next s,
                                    d_next := ht_dictionary.d_next s\<rparr>) s 0 of
        Inl f \<Rightarrow> Inl f
      | Inr (m', s') \<Rightarrow> Inr (m', ht_dictionary_reset s'))"

text \<open>Lines 405 to 431: a code for the dictionaries.\<close>

definition decompress_data ::
  "lz78_d \<Rightarrow> dictionary \<Rightarrow> ht_dictionary \<Rightarrow> nat \<Rightarrow> (fault + int \<times> lz78_d) option" where
  "decompress_data st m s code =
     (case dictionary_update m code of
        Inl f \<Rightarrow> Some (Inl f)
      | Inr m1 \<Rightarrow>
          (case (if d_next m1 > d_thr m1 then ht_feed s (published m1) else Some s) of
             None \<Rightarrow> None
           | Some s1 \<Rightarrow>
               if d_next m1 = d_size m1 then
                 (case rotate m1 s1 of
                    Inl f \<Rightarrow> Some (Inl f)
                  | Inr (m2, s2) \<Rightarrow> Some (Inr (0, st\<lparr>main := Some m2, secondary := Some s2\<rparr>)))
               else Some (Inr (0, st\<lparr>main := Some m1, secondary := Some s1\<rparr>))))"

definition decompress_code :: "heap \<Rightarrow> lz78_d \<Rightarrow> nat \<Rightarrow> (fault + int \<times> lz78_d) option" where
  "decompress_code hp st code =
     (if code = DICT_CODE_EOF then Some (Inr (0, st\<lparr>completed := True\<rparr>))
      else
        (case main st of
           None \<Rightarrow> Some (Inl Null_Pointer)
         | Some m \<Rightarrow>
             if code = DICT_CODE_START \<or> code = DICT_CODE_SIZE then
               Some (Inr (0, st\<lparr>main := Some (m\<lparr>d_next := DICT_SIZE_MAX\<rparr>), n_bits := 0\<rparr>))
             else if d_next m = DICT_SIZE_MAX then
               (if \<not> dictionary_ok hp then Some (Inr (- 1, st\<lparr>main := None\<rparr>))
                else if \<not> ht_dictionary_ok hp then
                  Some (Inr (- 1, st\<lparr>main := None, secondary := None\<rparr>))
                else
                  Some (Inr (0, st\<lparr>main := Some (dictionary_new (dictionary_mem hp) code),
                                   secondary := Some (ht_dictionary_new code),
                                   bitbuf := 0, n_bits := 0\<rparr>)))
             else
               (case secondary st of
                  None \<Rightarrow> Some (Inr (- 2, st))
                | Some s \<Rightarrow> decompress_data st m s code)))"

text \<open>
  The loop of \<open>lz78_decompress\<close>: the bytes of the last code are written, \<open>bitlen d_next\<close>
  bits are read into \<open>bitbuf\<close>, and \<open>decompress_code\<close> runs. The result is the return
  code, or the fault, and the content of the output file. A read that falls short
  returns \<open>LZ78_ERROR_EAGAIN\<close>. The bytes are written from \<open>bytebuf + offset\<close> whenever
  \<open>n_bytes\<close> is not zero, also before \<open>dictionary_update\<close> has set the two fields; bytes
  that are not all inside the buffer are the fault \<open>Out_Of_Bounds\<close>.
\<close>

partial_function (option) decompress_loop ::
  "heap \<Rightarrow> lz78_d \<Rightarrow> bool list \<Rightarrow> nat list \<Rightarrow> ((fault + lz78_status) \<times> nat list) option" where
  "decompress_loop hp st inp out =
     (case main st of
        None \<Rightarrow> Some (Inl Null_Pointer, out)
      | Some m \<Rightarrow>
          if n_bytes m \<noteq> 0 \<and> bytebuf_size m < offset m + n_bytes m
          then Some (Inl Out_Of_Bounds, out)
          else
            (let out1 = (if n_bytes m \<noteq> 0 then out @ published m else out);
                 bits = bitlen (d_next m)
             in if length inp < bits then Some (Inr LZ78_ERROR_EAGAIN, out1)
                else
                  (case decompress_code hp (st\<lparr>bitbuf := le_val (take bits inp), n_bits := bits\<rparr>)
                          (le_val (take bits inp)) of
                     None \<Rightarrow> None
                   | Some (Inl f) \<Rightarrow> Some (Inl f, out1)
                   | Some (Inr (ret, st')) \<Rightarrow>
                       if ret = - 1 then Some (Inr LZ78_ERROR_DICTIONARY, out1)
                       else if ret = - 2 then Some (Inr LZ78_ERROR_DECOMPRESS, out1)
                       else if completed st' then Some (Inr LZ78_SUCCESS, out1)
                       else decompress_loop hp st' (drop bits inp) out1)))"

declare decompress_loop.simps [code]

definition lz78_decompress :: "heap \<Rightarrow> bool list \<Rightarrow> ((fault + lz78_status) \<times> nat list) option" where
  "lz78_decompress hp inp = decompress_loop hp (lz78_new_d hp) inp []"

section \<open>Notions used to state the properties\<close>

datatype emission = Emission (em_code: nat) (em_width: nat) (em_swap: bool)

definition swaps :: "lz78_c \<Rightarrow> int \<Rightarrow> bool" where
  "swaps st c_in =
     (cur_node (lz78_c.main st) \<noteq> DICT_CODE_EOF \<and> cur_node (lz78_c.main st) \<noteq> DICT_CODE_STOP \<and>
      (case ht_dictionary_update
              (if cur_node (lz78_c.main st) = DICT_CODE_START
               then (lz78_c.main st)\<lparr>cur_node := NO_NODE\<rparr> else lz78_c.main st)
              (u16 (if c_in = EOF then int DICT_CODE_EOF else c_in)) of
         None \<Rightarrow> False
       | Some (r, m) \<Rightarrow> r = 0 \<and> ht_dictionary.d_next m = ht_dictionary.d_size m))"

fun emissions :: "lz78_c \<Rightarrow> int list \<Rightarrow> emission list" where
  "emissions st [] = []"
| "emissions st (c # cs) =
     (case compress_byte (drain st) c of
        None \<Rightarrow> []
      | Some st' \<Rightarrow>
          (if lz78_c.n_bits st' > 0
           then [Emission (lz78_c.bitbuf st') (lz78_c.n_bits st') (swaps (drain st) c)] else [])
          @ emissions st' cs)"

definition tbl_ok :: "ht_dictionary \<Rightarrow> bool" where
  "tbl_ok d = (DICT_SIZE_MIN \<le> ht_dictionary.d_next d \<and>
     (\<forall>i. used (ht_dictionary.root d i) \<longrightarrow>
        DICT_SIZE_MIN \<le> child (ht_dictionary.root d i) \<and>
        child (ht_dictionary.root d i) < ht_dictionary.d_next d))"

definition cur_ok :: "ht_dictionary \<Rightarrow> bool" where
  "cur_ok d = (cur_node d \<le> DICT_CODE_EOF \<or> cur_node d = DICT_CODE_STOP \<or> cur_node d = NO_NODE \<or>
     (DICT_SIZE_MIN \<le> cur_node d \<and> cur_node d < ht_dictionary.d_next d))"

definition enc_inv :: "lz78_c \<Rightarrow> bool" where
  "enc_inv st = (tbl_ok (lz78_c.main st) \<and> cur_ok (lz78_c.main st) \<and> tbl_ok (lz78_c.secondary st))"

definition valid_in :: "int \<Rightarrow> bool" where
  "valid_in c = (c = EOF \<or> (0 \<le> c \<and> c \<le> 255))"

fun mono_from :: "nat \<Rightarrow> emission list \<Rightarrow> bool" where
  "mono_from w [] = True"
| "mono_from w (e # es) = (w \<le> em_width e \<and> mono_from (if em_swap e then 0 else em_width e) es)"

text \<open>
  The bits that the loop of \<open>lz78_compress\<close> has handed to \<open>bit_write\<close> and \<open>bit_close\<close>
  once it has run \<open>n\<close> turns, or fewer when it has returned before or when a call of
  \<open>compress_byte\<close> does not return. Unlike \<open>compress_loop\<close> it is defined for every input.
\<close>

fun compress_written :: "nat \<Rightarrow> lz78_c \<Rightarrow> int list \<Rightarrow> bool list \<Rightarrow> bool list" where
  "compress_written 0 st inp out = out"
| "compress_written (Suc n) st inp out =
     (case compress_byte (drain st) (case inp of [] \<Rightarrow> EOF | c # cs \<Rightarrow> c) of
        None \<Rightarrow> bit_write out (lz78_c.bitbuf st) (lz78_c.n_bits st)
      | Some st' \<Rightarrow>
          if lz78_c.completed st'
          then bit_close (bit_write out (lz78_c.bitbuf st) (lz78_c.n_bits st))
          else compress_written n st' (tl inp) (bit_write out (lz78_c.bitbuf st) (lz78_c.n_bits st)))"

fun decompress_codes :: "heap \<Rightarrow> lz78_d \<Rightarrow> nat list \<Rightarrow> (fault + int \<times> lz78_d) option" where
  "decompress_codes hp st [] = Some (Inr (0, st))"
| "decompress_codes hp st (c # cs) =
     (case decompress_code hp st c of
        None \<Rightarrow> None
      | Some (Inl f) \<Rightarrow> Some (Inl f)
      | Some (Inr (r, st')) \<Rightarrow>
          if r < 0 \<or> lz78_d.completed st' then Some (Inr (r, st'))
          else decompress_codes hp st' cs)"

text \<open>
  The string a code denotes in a table: the labels on the path from the code to a
  literal, the literal's first. Labels are read as bytes.
\<close>

inductive denotes :: "(nat \<Rightarrow> entry) \<Rightarrow> nat \<Rightarrow> nat \<Rightarrow> nat list \<Rightarrow> bool"
  for rt :: "nat \<Rightarrow> entry" and dsize :: nat where
  literal: "p < DICT_SIZE_MIN \<Longrightarrow> p < dsize \<Longrightarrow> denotes rt dsize p [label (rt p) mod 256]"
| dynamic: "DICT_SIZE_MIN \<le> p \<Longrightarrow> p < dsize \<Longrightarrow> denotes rt dsize (parent (rt p)) s \<Longrightarrow>
            denotes rt dsize p (s @ [label (rt p) mod 256])"

code_pred denotes .

definition dict_wf :: "dictionary \<Rightarrow> bool" where
  "dict_wf d = (DICT_SIZE_MIN < d_size d \<and> d_size d \<le> DICT_SIZE_MAX \<and> d_size d \<le> bytebuf_size d \<and>
                DICT_SIZE_MIN \<le> d_min d \<and> d_min d \<le> d_next d \<and> d_next d < d_size d)"

definition resolves :: "dictionary \<Rightarrow> nat \<Rightarrow> nat list \<Rightarrow> bool" where
  "resolves d code s =
     (if d_min d \<le> code \<and> code = d_next d - 1
      then code < d_size d \<and>
           (\<exists>s0. denotes (root d) (d_size d) (parent (root d code)) s0 \<and> s = s0 @ [hd s0])
      else denotes (root d) (d_size d) code s)"

definition used_slots :: "ht_dictionary \<Rightarrow> nat list" where
  "used_slots s = filter (\<lambda>i. used (ht_dictionary.root s i)) [0..<ht_dictionary.d_size s]"

definition copy_entry :: "ht_entry \<Rightarrow> (nat \<Rightarrow> entry) \<Rightarrow> (nat \<Rightarrow> entry)" where
  "copy_entry e rt = rt(child e := \<lparr>parent = ht_entry.parent e, label = ht_entry.label e\<rparr>)"

definition rotation_spec :: "dictionary \<Rightarrow> ht_dictionary \<Rightarrow> dictionary \<times> ht_dictionary" where
  "rotation_spec m s =
     (let m1 = dictionary_reset m;
          m2 = m1\<lparr>d_min := ht_dictionary.d_next s, d_next := ht_dictionary.d_next s\<rparr>;
          m3 = m2\<lparr>root := fold (\<lambda>i. copy_entry (ht_dictionary.root s i)) (used_slots s) (root m2)\<rparr>;
          s3 = s\<lparr>ht_dictionary.d_next := ht_dictionary.d_next s - length (used_slots s)\<rparr>
      in (m3, ht_dictionary_reset s3))"

text \<open>
  Memory that holds zeros, and the heap in which every allocation succeeds and returns
  such memory: the case in which the fields a constructor leaves uninitialised are zero
  and the pointer \<open>secondary\<close> is null.
\<close>

definition zero_dictionary :: dictionary where
  "zero_dictionary =
     \<lparr>root = (\<lambda>i. \<lparr>parent = 0, label = 0\<rparr>), d_size = 0, d_thr = 0, d_min = 0, d_next = 0,
      n_bytes = 0, offset = 0, bytebuf = (\<lambda>i. 0), bytebuf_size = 0\<rparr>"

definition zero_instance :: lz78_d where
  "zero_instance = \<lparr>completed = False, main = None, secondary = None, bitbuf = 0, n_bits = 0\<rparr>"

definition hp1 :: heap where
  "hp1 = \<lparr>dictionary_ok = True, ht_dictionary_ok = True, dictionary_mem = zero_dictionary,
           instance_mem = zero_instance\<rparr>"

fun compress_bytes :: "lz78_c \<Rightarrow> int list \<Rightarrow> lz78_c option" where
  "compress_bytes st [] = Some st"
| "compress_bytes st (c # cs) =
     (case compress_byte (drain st) c of None \<Rightarrow> None | Some st' \<Rightarrow> compress_bytes st' cs)"

text \<open>The main dictionary after the codes 258, 263, 97: entry 260 is pending.\<close>

definition after_one_code :: dictionary where
  "after_one_code =
     (dictionary_new zero_dictionary 263)\<lparr>root := (root (dictionary_new zero_dictionary 263))(260 := \<lparr>parent = 97, label = 0\<rparr>),
        d_next := 261, n_bytes := 1, offset := 262, bytebuf := (\<lambda>i. 0)(262 := 97)\<rparr>"

text \<open>
  The decompressor with dictionary size 262 on zeroed memory, after the codes 258, 262
  and 97: the main and the secondary dictionary, then the main one after the update for
  the code 98, which fills it, and the main dictionary that the rotation leaves.
\<close>

definition main_before :: dictionary where
  "main_before =
     (dictionary_new zero_dictionary 262)\<lparr>root := (root (dictionary_new zero_dictionary 262))(260 := \<lparr>parent = 97, label = 0\<rparr>),
        d_next := 261, n_bytes := 1, offset := 261, bytebuf := (\<lambda>i. 0)(261 := 97)\<rparr>"

definition secondary_before :: ht_dictionary where
  "secondary_before = (ht_dictionary_new 262)\<lparr>cur_node := 97, prev_node := NO_NODE\<rparr>"

definition main_full :: dictionary where
  "main_full =
     main_before\<lparr>root := (root (dictionary_new zero_dictionary 262))
                         (260 := \<lparr>parent = 97, label = 98\<rparr>, 261 := \<lparr>parent = 98, label = 0\<rparr>),
        d_next := 262, bytebuf := (\<lambda>i. 0)(261 := 98)\<rparr>"

definition main_rotated :: dictionary where
  "main_rotated = main_full\<lparr>d_min := 261, d_next := 261\<rparr>"

text \<open>The pairs (parent, label) that a table holds, and a compressor whose main
  dictionary has passed its size: the swap is out of reach.\<close>

definition pairs :: "ht_dictionary \<Rightarrow> (nat \<times> nat) list" where
  "pairs t = map (\<lambda>i. (ht_entry.parent (ht_dictionary.root t i),
                          ht_entry.label (ht_dictionary.root t i))) (used_slots t)"

definition overfull :: "nat \<Rightarrow> lz78_c \<Rightarrow> bool" where
  "overfull D st = (\<not> lz78_c.completed st \<and> ht_dictionary.d_size (lz78_c.main st) = D \<and>
     ht_dictionary.d_size (lz78_c.secondary st) = D \<and> 0 < D \<and>
     D \<le> ht_dictionary.d_next (lz78_c.main st) \<and> ht_dictionary.d_thr (lz78_c.main st) \<le> D \<and>
     cur_node (lz78_c.main st) < 256)"

text \<open>
  The compressor with dictionary size 263 after the eleven bytes 0, 0, 1, 0, 1, 0, 1, 0,
  1, 0, 0, and 260 further bytes, each of which makes a pair that no table holds yet.
\<close>

definition full_start :: lz78_c where
  "full_start =
     (lz78_new_c 263)
       \<lparr>lz78_c.main := (ht_dictionary_new 263)
          \<lparr>ht_dictionary.root := (\<lambda>i. ht_zero)
             (74 := \<lparr>used = True, parent = 0, label = 1, child = 260\<rparr>,
              169 := \<lparr>used = True, parent = 1, label = 0, child = 261\<rparr>,
              187 := \<lparr>used = True, parent = 260, label = 0, child = 262\<rparr>),
           cur_node := 0, prev_node := 260, ht_dictionary.d_next := 263\<rparr>,
        lz78_c.secondary := (ht_dictionary_new 263)\<lparr>cur_node := 0, prev_node := NO_NODE\<rparr>,
        lz78_c.bitbuf := 261, lz78_c.n_bits := bitlen 262\<rparr>"

definition filler :: "int list" where
  "filler = concat (map (\<lambda>k. [int k, 0]) [2..<132])"

section \<open>Properties\<close>

lemma bitlen_mono: "a \<le> b \<Longrightarrow> bitlen a \<le> bitlen b"
proof (induction a arbitrary: b rule: bitlen.induct)
  case (1 i)
  show ?case
  proof (cases "i = 0")
    case True
    then show ?thesis by (simp add: bitlen.simps)
  next
    case False
    with 1(2) have b: "b \<noteq> 0" by simp
    have "i div 2 \<le> b div 2" using 1(2) by (rule div_le_mono)
    from 1(1)[OF False this] False b show ?thesis
      by (simp add: bitlen.simps[of i] bitlen.simps[of b])
  qed
qed

lemma bitlen_pos: "0 < n \<Longrightarrow> 0 < bitlen n"
  by (simp add: bitlen.simps[of n])

lemma ht_search_result:
  assumes "ht_search rt ds cur lab h = Some y"
  shows "(fst y \<longrightarrow> used (rt (snd y)) \<and> ht_entry.parent (rt (snd y)) = cur \<and> ht_entry.label (rt (snd y)) = lab)
       \<and> (\<not> fst y \<longrightarrow> \<not> used (rt (snd y))) \<and> (0 < ds \<longrightarrow> h < ds \<longrightarrow> snd y < ds)"
proof (rule ht_search.raw_induct[where P = "\<lambda>rt ds cur lab h y.
         (fst y \<longrightarrow> used (rt (snd y)) \<and> ht_entry.parent (rt (snd y)) = cur \<and> ht_entry.label (rt (snd y)) = lab)
       \<and> (\<not> fst y \<longrightarrow> \<not> used (rt (snd y))) \<and> (0 < ds \<longrightarrow> h < ds \<longrightarrow> snd y < ds)", OF _ assms])
  fix f :: "(nat \<Rightarrow> ht_entry) \<Rightarrow> nat \<Rightarrow> nat \<Rightarrow> nat \<Rightarrow> nat \<Rightarrow> (bool \<times> nat) option"
  fix rt ds cur lab h y
  assume IH: "\<And>rt ds cur lab h y. f rt ds cur lab h = Some y \<Longrightarrow>
         (fst y \<longrightarrow> used (rt (snd y)) \<and> ht_entry.parent (rt (snd y)) = cur \<and> ht_entry.label (rt (snd y)) = lab)
       \<and> (\<not> fst y \<longrightarrow> \<not> used (rt (snd y))) \<and> (0 < ds \<longrightarrow> h < ds \<longrightarrow> snd y < ds)"
    and eq: "(if used (rt h)
      then if ht_entry.parent (rt h) = cur \<and> ht_entry.label (rt h) = lab
           then Some (True, h) else f rt ds cur lab ((h + 1) mod ds)
      else Some (False, h)) = Some y"
  show "(fst y \<longrightarrow> used (rt (snd y)) \<and> ht_entry.parent (rt (snd y)) = cur \<and> ht_entry.label (rt (snd y)) = lab)
       \<and> (\<not> fst y \<longrightarrow> \<not> used (rt (snd y))) \<and> (0 < ds \<longrightarrow> h < ds \<longrightarrow> snd y < ds)"
  proof (cases "used (rt h)")
    case False
    with eq show ?thesis by auto
  next
    case True
    show ?thesis
    proof (cases "ht_entry.parent (rt h) = cur \<and> ht_entry.label (rt h) = lab")
      case True
      with \<open>used (rt h)\<close> eq show ?thesis by auto
    next
      case False
      with \<open>used (rt h)\<close> eq have "f rt ds cur lab ((h + 1) mod ds) = Some y" by auto
      from IH[OF this] show ?thesis by auto
    qed
  qed
qed

lemma ht_update_cases:
  assumes "ht_dictionary_update d lab = Some (r, d')"
  shows "(r = - 1 \<and> ht_dictionary.root d' = ht_dictionary.root d \<and> ht_dictionary.d_next d' = ht_dictionary.d_next d
            \<and> (cur_node d = NO_NODE \<and> cur_node d' = lab \<or>
                cur_node d \<noteq> NO_NODE \<and> (\<exists>k. used (ht_dictionary.root d k) \<and> cur_node d' = child (ht_dictionary.root d k))))
       \<or> (r = 0 \<and> cur_node d \<noteq> NO_NODE \<and> cur_node d' = lab \<and> ht_dictionary.d_next d' = ht_dictionary.d_next d + 1
            \<and> (\<exists>k. \<not> used (ht_dictionary.root d k) \<and> ht_dictionary.root d' = (ht_dictionary.root d)(k :=
                  \<lparr>used = True, parent = cur_node d, label = lab, child = ht_dictionary.d_next d\<rparr>)))"
    and "prev_node d' = cur_node d"
    and "ht_dictionary.d_size d' = ht_dictionary.d_size d" and "ht_dictionary.d_thr d' = ht_dictionary.d_thr d"
proof -
  show "(r = - 1 \<and> ht_dictionary.root d' = ht_dictionary.root d \<and> ht_dictionary.d_next d' = ht_dictionary.d_next d
            \<and> (cur_node d = NO_NODE \<and> cur_node d' = lab \<or>
                cur_node d \<noteq> NO_NODE \<and> (\<exists>k. used (ht_dictionary.root d k) \<and> cur_node d' = child (ht_dictionary.root d k))))
       \<or> (r = 0 \<and> cur_node d \<noteq> NO_NODE \<and> cur_node d' = lab \<and> ht_dictionary.d_next d' = ht_dictionary.d_next d + 1
            \<and> (\<exists>k. \<not> used (ht_dictionary.root d k) \<and> ht_dictionary.root d' = (ht_dictionary.root d)(k :=
                  \<lparr>used = True, parent = cur_node d, label = lab, child = ht_dictionary.d_next d\<rparr>)))"
    using assms
    by (auto simp: ht_dictionary_update_def Let_def split: if_splits option.splits prod.splits
             dest!: ht_search_result)
  show "prev_node d' = cur_node d" "ht_dictionary.d_size d' = ht_dictionary.d_size d" "ht_dictionary.d_thr d' = ht_dictionary.d_thr d"
    using assms
    by (auto simp: ht_dictionary_update_def Let_def split: if_splits option.splits prod.splits)
qed

lemma tbl_ok_update:
  assumes "tbl_ok d" and "ht_dictionary_update d lab = Some (r, d')"
  shows "tbl_ok d'"
  using ht_update_cases(1)[OF assms(2)] assms(1)
  by (auto simp: tbl_ok_def less_Suc_eq)

lemma cur_ok_update:
  assumes "tbl_ok d" and "lab \<le> DICT_CODE_EOF" and "ht_dictionary_update d lab = Some (r, d')"
  shows "cur_ok d'"
  using ht_update_cases(1)[OF assms(3)] assms(1,2)
  by (auto simp: tbl_ok_def cur_ok_def)

lemma tbl_ok_reset [simp]: "tbl_ok (ht_dictionary_reset d)"
  by (simp add: tbl_ok_def ht_dictionary_reset_def ht_zero_def)

lemma tbl_ok_new [simp]: "tbl_ok (ht_dictionary_new n)"
  by (simp add: tbl_ok_def ht_dictionary_new_def ht_zero_def Let_def)

lemma tbl_ok_cur [simp]: "tbl_ok (d\<lparr>cur_node := x\<rparr>) = tbl_ok d"
  by (simp add: tbl_ok_def)

lemma valid_in_u16: "valid_in c \<Longrightarrow> u16 (if c = EOF then int DICT_CODE_EOF else c) \<le> DICT_CODE_EOF"
  by (auto simp: valid_in_def u16_def)

lemma valid_in_u32: "valid_in c \<Longrightarrow> u32 (if c = EOF then int DICT_CODE_EOF else c) \<le> DICT_CODE_EOF"
  by (auto simp: valid_in_def u32_def)

lemma enc_inv_drain [simp]: "enc_inv (drain st) = enc_inv st"
  by (simp add: enc_inv_def drain_def)

lemma main_drain [simp]: "lz78_c.main (drain st) = lz78_c.main st"
  and sec_drain [simp]: "lz78_c.secondary (drain st) = lz78_c.secondary st"
  and n_bits_drain [simp]: "lz78_c.n_bits (drain st) = 0"
  and completed_drain [simp]: "lz78_c.completed (drain st) = lz78_c.completed st"
  by (simp_all add: drain_def)

text \<open>What one call of compress_update does, case by case.\<close>

lemma compress_update_cases:
  assumes "compress_update st c = Some st'"
  obtains
    (move) m where "ht_dictionary_update (lz78_c.main st) (u16 c) = Some (- 1, m)"
      "lz78_c.main st' = m" "lz78_c.bitbuf st' = lz78_c.bitbuf st" "lz78_c.n_bits st' = lz78_c.n_bits st"
      "lz78_c.completed st' = lz78_c.completed st"
      "lz78_c.secondary st' = lz78_c.secondary st \<or>
        (\<exists>r. ht_dictionary_update (lz78_c.secondary st) (u16 c) = Some (r, lz78_c.secondary st'))"
  | (emit) m where "ht_dictionary_update (lz78_c.main st) (u16 c) = Some (0, m)"
      "ht_dictionary.d_next m \<noteq> ht_dictionary.d_size m"
      "lz78_c.main st' = m" "lz78_c.bitbuf st' = prev_node m"
      "lz78_c.n_bits st' = bitlen (sub1 (ht_dictionary.d_next m))"
      "lz78_c.completed st' = lz78_c.completed st"
      "lz78_c.secondary st' = lz78_c.secondary st \<or>
        (\<exists>r. ht_dictionary_update (lz78_c.secondary st) (u16 c) = Some (r, lz78_c.secondary st'))"
  | (swap) m where "ht_dictionary_update (lz78_c.main st) (u16 c) = Some (0, m)"
      "ht_dictionary.d_next m = ht_dictionary.d_size m"
      "lz78_c.main st' = (lz78_c.secondary st)\<lparr>cur_node := u32 c\<rparr>" "lz78_c.bitbuf st' = prev_node m"
      "lz78_c.n_bits st' = bitlen (sub1 (ht_dictionary.d_next m))"
      "lz78_c.completed st' = lz78_c.completed st"
      "lz78_c.secondary st' = ht_dictionary_reset m \<or>
        (\<exists>r. ht_dictionary_update (ht_dictionary_reset m) (u16 c) = Some (r, lz78_c.secondary st'))"
proof -
  obtain r m where upd: "ht_dictionary_update (lz78_c.main st) (u16 c) = Some (r, m)"
    using assms by (auto simp: compress_update_def split: option.splits)
  from ht_update_cases(1)[OF upd] have r: "r = - 1 \<or> r = 0" by auto
  show thesis
  proof (cases "r = 0")
    case False
    with r have "r = - 1" by simp
    with upd assms show thesis
      by (intro move[of m]) (auto simp: compress_update_def split: option.splits if_splits)
  next
    case True
    show thesis
    proof (cases "ht_dictionary.d_next m = ht_dictionary.d_size m")
      case False
      with True upd assms show thesis
        by (intro emit[of m]) (auto simp: compress_update_def Let_def split: option.splits if_splits)
    next
      case sw: True
      with True upd assms show thesis
        by (intro swap[of m]) (auto simp: compress_update_def Let_def split: option.splits if_splits)
    qed
  qed
qed

lemma cur_ok_not_start: "cur_ok d \<Longrightarrow> cur_node d \<noteq> DICT_CODE_START"
  by (auto simp: cur_ok_def)

lemma compress_byte_step:
  assumes inv: "enc_inv st" and v: "valid_in c"
    and step: "compress_byte (drain st) c = Some st'"
  shows "enc_inv st'"
    and "lz78_c.n_bits st' > 0 \<Longrightarrow>
           lz78_c.n_bits st' = bitlen (ht_dictionary.d_next (lz78_c.main st)) \<and>
           (lz78_c.bitbuf st' < DICT_CODE_SIZE \<or> DICT_SIZE_MIN \<le> lz78_c.bitbuf st')"
    and "\<not> swaps (drain st) c \<Longrightarrow>
           ht_dictionary.d_next (lz78_c.main st) \<le> ht_dictionary.d_next (lz78_c.main st')"
    and "swaps (drain st) c \<Longrightarrow> lz78_c.n_bits st' > 0"
proof -
  let ?m = "lz78_c.main st" and ?c = "if c = EOF then int DICT_CODE_EOF else c"
  from inv have tm: "tbl_ok ?m" and cm: "cur_ok ?m" and ts: "tbl_ok (lz78_c.secondary st)"
    by (simp_all add: enc_inv_def)
  from cm have ns: "cur_node ?m \<noteq> DICT_CODE_START" by (rule cur_ok_not_start)
  from tm have dn: "DICT_SIZE_MIN \<le> ht_dictionary.d_next ?m" by (simp add: tbl_ok_def)
  have lab: "u16 ?c \<le> DICT_CODE_EOF" and lab32: "u32 ?c \<le> DICT_CODE_EOF"
    using v by (rule valid_in_u16, rule valid_in_u32)
  have all: "enc_inv st' \<and>
      (lz78_c.n_bits st' > 0 \<longrightarrow>
           lz78_c.n_bits st' = bitlen (ht_dictionary.d_next ?m) \<and>
           (lz78_c.bitbuf st' < DICT_CODE_SIZE \<or> DICT_SIZE_MIN \<le> lz78_c.bitbuf st')) \<and>
      (\<not> swaps (drain st) c \<longrightarrow> ht_dictionary.d_next ?m \<le> ht_dictionary.d_next (lz78_c.main st')) \<and>
      (swaps (drain st) c \<longrightarrow> lz78_c.n_bits st' > 0)"
  proof (cases "cur_node ?m = DICT_CODE_EOF \<or> cur_node ?m = DICT_CODE_STOP")
    case True
    with step tm ts show ?thesis
      by (auto simp: compress_byte_def Let_def enc_inv_def cur_ok_def swaps_def tbl_ok_def
               split: if_splits)
  next
    case False
    with step ns have cu: "compress_update (drain st) ?c = Some st'"
      by (simp add: compress_byte_def Let_def split: if_splits)
    from False ns have sw: "swaps (drain st) c =
        (case ht_dictionary_update ?m (u16 ?c) of None \<Rightarrow> False
         | Some (r, m) \<Rightarrow> r = 0 \<and> ht_dictionary.d_next m = ht_dictionary.d_size m)"
      by (simp add: swaps_def)
    from cu show ?thesis
    proof (cases rule: compress_update_cases)
      case (move m)
      from move(1) have "tbl_ok m" "cur_ok m"
        using tm lab by (auto intro: tbl_ok_update cur_ok_update)
      moreover have "tbl_ok (lz78_c.secondary st')"
        using move(6) ts by (auto intro: tbl_ok_update)
      moreover have "ht_dictionary.d_next m = ht_dictionary.d_next ?m"
        using ht_update_cases(1)[OF move(1)] by auto
      ultimately show ?thesis using move sw by (simp add: enc_inv_def)
    next
      case (emit m)
      from emit(1) have "tbl_ok m" "cur_ok m"
        using tm lab by (auto intro: tbl_ok_update cur_ok_update)
      moreover have "tbl_ok (lz78_c.secondary st')"
        using emit(7) ts by (auto intro: tbl_ok_update)
      moreover have dn': "ht_dictionary.d_next m = ht_dictionary.d_next ?m + 1"
        and nn: "cur_node ?m \<noteq> NO_NODE"
        using ht_update_cases(1)[OF emit(1)] by auto
      moreover have "prev_node m = cur_node ?m" using ht_update_cases(2)[OF emit(1)] by simp
      moreover have "cur_node ?m < DICT_CODE_SIZE \<or> DICT_SIZE_MIN \<le> cur_node ?m"
        using cm False nn by (auto simp: cur_ok_def)
      ultimately show ?thesis using emit sw by (simp add: enc_inv_def sub1_def)
    next
      case (swap m)
      have tm': "tbl_ok m" using swap(1) tm by (auto intro: tbl_ok_update)
      have "tbl_ok (lz78_c.main st')" using swap(3) ts by simp
      moreover have "cur_ok (lz78_c.main st')" using swap(3) lab32 by (simp add: cur_ok_def)
      moreover have "tbl_ok (lz78_c.secondary st')"
        using swap(7) by (auto intro: tbl_ok_update[OF tbl_ok_reset])
      moreover have dn': "ht_dictionary.d_next m = ht_dictionary.d_next ?m + 1"
        and nn: "cur_node ?m \<noteq> NO_NODE"
        using ht_update_cases(1)[OF swap(1)] by auto
      moreover have "prev_node m = cur_node ?m" using ht_update_cases(2)[OF swap(1)] by simp
      moreover have "cur_node ?m < DICT_CODE_SIZE \<or> DICT_SIZE_MIN \<le> cur_node ?m"
        using cm False nn by (auto simp: cur_ok_def)
      moreover have "0 < bitlen (ht_dictionary.d_next ?m)" using dn by (intro bitlen_pos) simp
      ultimately show ?thesis using swap sw by (simp add: enc_inv_def sub1_def)
    qed
  qed
  from all show "enc_inv st'"
    and "lz78_c.n_bits st' > 0 \<Longrightarrow>
           lz78_c.n_bits st' = bitlen (ht_dictionary.d_next (lz78_c.main st)) \<and>
           (lz78_c.bitbuf st' < DICT_CODE_SIZE \<or> DICT_SIZE_MIN \<le> lz78_c.bitbuf st')"
    and "\<not> swaps (drain st) c \<Longrightarrow>
           ht_dictionary.d_next (lz78_c.main st) \<le> ht_dictionary.d_next (lz78_c.main st')"
    and "swaps (drain st) c \<Longrightarrow> lz78_c.n_bits st' > 0"
    by simp_all
qed

lemma DICT_LIMIT_range: "DICT_SIZE_MIN < DICT_LIMIT x \<and> DICT_LIMIT x \<le> DICT_SIZE_MAX"
  by (simp add: DICT_LIMIT_def)

lemma DICT_LIMIT_idem [simp]: "DICT_LIMIT (DICT_LIMIT x) = DICT_LIMIT x"
  by (simp add: DICT_LIMIT_def)

lemma bitlen_DICT_SIZE_MAX: "bitlen DICT_SIZE_MAX = 21"
  by (simp add: bitlen.simps)

lemma bitlen_DICT_SIZE_MIN: "bitlen DICT_SIZE_MIN = 9"
  by (simp add: bitlen.simps)

text \<open>The first call, on the state that lz78_new leaves: the size announcement.\<close>

lemma first_call:
  assumes "valid_in c"
  obtains st1 where "compress_byte (drain (lz78_new_c dsize)) c = Some st1"
    "enc_inv st1" "\<not> lz78_c.completed st1" "lz78_c.n_bits st1 = 21"
    "lz78_c.bitbuf st1 = DICT_LIMIT (if dsize = 0 then DICT_SIZE_DEFAULT else dsize)"
    "\<not> swaps (drain (lz78_new_c dsize)) c"
proof -
  let ?ds = "DICT_LIMIT (if dsize = 0 then DICT_SIZE_DEFAULT else dsize)"
  let ?c = "if c = EOF then int DICT_CODE_EOF else c"
  have lab: "u16 ?c \<le> DICT_CODE_EOF" using assms by (rule valid_in_u16)
  let ?m = "(ht_dictionary_new ?ds)\<lparr>cur_node := u16 ?c, prev_node := NO_NODE\<rparr>"
  have m: "ht_dictionary_update ((ht_dictionary_new ?ds)\<lparr>cur_node := NO_NODE\<rparr>) (u16 ?c) = Some (- 1, ?m)"
    by (simp add: ht_dictionary_update_def ht_dictionary_new_def Let_def)
  have s: "ht_dictionary_update (ht_dictionary_new ?ds) (u16 ?c) = Some (- 1, ?m)"
    by (simp add: ht_dictionary_update_def ht_dictionary_new_def Let_def)
  define st1 where "st1 = (if ht_dictionary.d_thr ?m \<le> ht_dictionary.d_next ?m
     then (drain (lz78_new_c dsize))\<lparr>lz78_c.bitbuf := ?ds, lz78_c.n_bits := bitlen DICT_SIZE_MAX,
            lz78_c.main := ?m, lz78_c.secondary := ?m\<rparr>
     else (drain (lz78_new_c dsize))\<lparr>lz78_c.bitbuf := ?ds, lz78_c.n_bits := bitlen DICT_SIZE_MAX,
            lz78_c.main := ?m\<rparr>)"
  have step: "compress_byte (drain (lz78_new_c dsize)) c = Some st1"
    unfolding st1_def
    by (simp add: compress_byte_def compress_update_def lz78_new_c_def drain_def Let_def m s
                  ht_dictionary_new_def[of ?ds, THEN arg_cong[where f=ht_dictionary.d_size]])
  have tm: "tbl_ok ?m" by (simp add: tbl_ok_def ht_dictionary_new_def Let_def ht_zero_def)
  have cm: "cur_ok ?m" using lab by (simp add: cur_ok_def)
  have inv: "enc_inv st1"
    using tm cm by (simp add: st1_def enc_inv_def lz78_new_c_def drain_def Let_def)
  have sw: "\<not> swaps (drain (lz78_new_c dsize)) c"
    by (simp add: swaps_def lz78_new_c_def Let_def m drain_def)
  show thesis
    by (rule that[OF step inv _ _ _ sw])
       (simp_all add: st1_def lz78_new_c_def drain_def Let_def bitlen_DICT_SIZE_MAX)
qed

lemma emissions_mono_from:
  assumes "enc_inv st" and "\<forall>c \<in> set cs. valid_in c"
    and "w \<le> bitlen (ht_dictionary.d_next (lz78_c.main st))"
  shows "mono_from w (emissions st cs)"
  using assms
proof (induction cs arbitrary: st w)
  case Nil
  then show ?case by simp
next
  case (Cons c cs)
  show ?case
  proof (cases "compress_byte (drain st) c")
    case None
    then show ?thesis by simp
  next
    case (Some st')
    from Cons.prems have v: "valid_in c" and vs: "\<forall>c \<in> set cs. valid_in c" by simp_all
    note st = compress_byte_step[OF Cons.prems(1) v Some]
    show ?thesis
    proof (cases "lz78_c.n_bits st' > 0")
      case True
      have w: "lz78_c.n_bits st' = bitlen (ht_dictionary.d_next (lz78_c.main st))"
        using st(2)[OF True] by simp
      have "mono_from (if swaps (drain st) c then 0 else lz78_c.n_bits st') (emissions st' cs)"
      proof (rule Cons.IH[OF st(1) vs])
        show "(if swaps (drain st) c then 0 else lz78_c.n_bits st')
                \<le> bitlen (ht_dictionary.d_next (lz78_c.main st'))"
          using st(3) w by (auto intro: bitlen_mono)
      qed
      with True w Cons.prems(3) Some show ?thesis by auto
    next
      case False
      with st(4) have "\<not> swaps (drain st) c" by auto
      from st(3)[OF this] Cons.prems(3)
      have "w \<le> bitlen (ht_dictionary.d_next (lz78_c.main st'))"
        by (meson bitlen_mono le_trans)
      from Cons.IH[OF st(1) vs this] False Some show ?thesis by simp
    qed
  qed
qed

lemma mono_from_weaken: "mono_from w es \<Longrightarrow> v \<le> w \<Longrightarrow> mono_from v es"
  by (cases es) auto

lemma mono_from_nth:
  assumes "mono_from w es" and "Suc i < length es" and "\<not> em_swap (es ! i)"
  shows "em_width (es ! i) \<le> em_width (es ! Suc i)"
  using assms
proof (induction es arbitrary: w i)
  case Nil
  then show ?case by simp
next
  case (Cons e es)
  show ?case
  proof (cases i)
    case 0
    with Cons.prems show ?thesis by (cases es) auto
  next
    case (Suc j)
    with Cons.prems Cons.IH[of _ j] show ?thesis by auto
  qed
qed

lemma emissions_codes:
  assumes "enc_inv st" and "\<forall>c \<in> set cs. valid_in c"
  shows "\<forall>e \<in> set (emissions st cs). em_code e < DICT_CODE_SIZE \<or> DICT_SIZE_MIN \<le> em_code e"
  using assms
proof (induction cs arbitrary: st)
  case Nil
  then show ?case by simp
next
  case (Cons c cs)
  show ?case
  proof (cases "compress_byte (drain st) c")
    case None
    then show ?thesis by simp
  next
    case (Some st')
    from Cons.prems have v: "valid_in c" and vs: "\<forall>c \<in> set cs. valid_in c" by simp_all
    note st = compress_byte_step[OF Cons.prems(1) v Some]
    from Cons.IH[OF st(1) vs] st(2) Some show ?thesis by auto
  qed
qed

text \<open>
  Claim C8. For every input of bytes, closed by \<open>EOF\<close>, the widths at which the compressor
  emits its successive codes do not decrease within an epoch: of two consecutive codes
  (\<open>tl\<close> drops the size announcement, which is no code), the second is at least as wide as
  the first unless the first is the code at whose emission the dictionaries are swapped.
  The list stops where a call of \<open>compress_byte\<close> does not return.
\<close>

theorem C8_widths:
  assumes "\<forall>c \<in> set cs. valid_in c"
    and "Suc i < length (tl (emissions (lz78_new_c dsize) cs))"
    and "\<not> em_swap (tl (emissions (lz78_new_c dsize) cs) ! i)"
  shows "em_width (tl (emissions (lz78_new_c dsize) cs) ! i)
           \<le> em_width (tl (emissions (lz78_new_c dsize) cs) ! Suc i)"
proof (cases cs)
  case Nil
  with assms(2) show ?thesis by simp
next
  case (Cons c cs')
  with assms(1) have v: "valid_in c" and vs: "\<forall>c \<in> set cs'. valid_in c" by simp_all
  from v obtain st1 where st1: "compress_byte (drain (lz78_new_c dsize)) c = Some st1"
    "enc_inv st1" "lz78_c.n_bits st1 = 21"
    by (rule first_call[of c dsize]) blast
  have tl: "tl (emissions (lz78_new_c dsize) cs) = emissions st1 cs'"
    using Cons st1 by simp
  have "mono_from 0 (emissions st1 cs')"
    by (rule emissions_mono_from[OF st1(2) vs]) simp
  from mono_from_nth[OF this] assms(2,3) show ?thesis unfolding tl by blast
qed

text \<open>
  Claim C10. For every input, every value the compressor emits after the start marker is
  a literal (0 to 255), the code 256 of the end of the stream, or at least 260: the
  reserved codes 257, 258 and 259 are never emitted, neither as a code nor as the size
  announcement.
\<close>

theorem C10_codes:
  assumes "\<forall>c \<in> set cs. valid_in c" and "e \<in> set (emissions (lz78_new_c dsize) cs)"
  shows "em_code e < DICT_CODE_SIZE \<or> DICT_SIZE_MIN \<le> em_code e"
proof (cases cs)
  case Nil
  with assms(2) show ?thesis by simp
next
  case (Cons c cs')
  with assms(1) have v: "valid_in c" and vs: "\<forall>c \<in> set cs'. valid_in c" by simp_all
  from v obtain st1 where st1: "compress_byte (drain (lz78_new_c dsize)) c = Some st1"
    "enc_inv st1" "lz78_c.n_bits st1 = 21"
    "lz78_c.bitbuf st1 = DICT_LIMIT (if dsize = 0 then DICT_SIZE_DEFAULT else dsize)"
    by (rule first_call[of c dsize]) blast
  have em: "emissions (lz78_new_c dsize) cs =
      Emission (lz78_c.bitbuf st1) 21 (swaps (drain (lz78_new_c dsize)) c) # emissions st1 cs'"
    using Cons st1 by simp
  from assms(2) consider "em_code e = lz78_c.bitbuf st1" | "e \<in> set (emissions st1 cs')"
    unfolding em by auto
  then show ?thesis
  proof cases
    case 1
    with st1(4) DICT_LIMIT_range[of "if dsize = 0 then DICT_SIZE_DEFAULT else dsize"]
    show ?thesis by simp
  next
    case 2
    with emissions_codes[OF st1(2) vs] show ?thesis by blast
  qed
qed

lemma length_le_bits [simp]: "length (le_bits n v) = n"
  by (induction n arbitrary: v) auto

lemma le_bits_numeral:
  "le_bits (numeral k) v = odd v # le_bits (pred_numeral k) (v div 2)"
  by (simp add: numeral_eq_Suc)

lemma compress_loop_prefix:
  assumes "compress_loop st inp out = Some r"
  shows "\<exists>ys. r = out @ le_bits (lz78_c.n_bits st) (lz78_c.bitbuf st) @ ys"
proof (rule compress_loop.raw_induct[where P = "\<lambda>st inp out r.
         \<exists>ys. r = out @ le_bits (lz78_c.n_bits st) (lz78_c.bitbuf st) @ ys", OF _ assms])
  fix f :: "lz78_c \<Rightarrow> int list \<Rightarrow> bool list \<Rightarrow> bool list option"
  fix st inp out r
  assume IH: "\<And>st inp out r. f st inp out = Some r \<Longrightarrow>
                 \<exists>ys. r = out @ le_bits (lz78_c.n_bits st) (lz78_c.bitbuf st) @ ys"
    and eq: "(case compress_byte (drain st) (case inp of [] \<Rightarrow> EOF | c # cs \<Rightarrow> c) of
        None \<Rightarrow> None
      | Some st' \<Rightarrow>
          if lz78_c.completed st' then Some (bit_close (bit_write out (lz78_c.bitbuf st) (lz78_c.n_bits st)))
          else f st' (tl inp) (bit_write out (lz78_c.bitbuf st) (lz78_c.n_bits st))) = Some r"
  from eq obtain st' where st': "compress_byte (drain st) (case inp of [] \<Rightarrow> EOF | c # cs \<Rightarrow> c) = Some st'"
    by (auto split: option.splits)
  show "\<exists>ys. r = out @ le_bits (lz78_c.n_bits st) (lz78_c.bitbuf st) @ ys"
  proof (cases "lz78_c.completed st'")
    case True
    with eq st' show ?thesis by (auto simp: bit_close_def bit_write_def)
  next
    case False
    with eq st' have "f st' (tl inp) (bit_write out (lz78_c.bitbuf st) (lz78_c.n_bits st)) = Some r"
      by simp
    from IH[OF this] show ?thesis by (auto simp: bit_write_def)
  qed
qed

lemma d_size_new [simp]: "ht_dictionary.d_size (ht_dictionary_new x) = DICT_LIMIT x"
  by (simp add: ht_dictionary_new_def Let_def)

lemma first_call_any:
  obtains st1 where "compress_byte (drain (lz78_new_c dsize)) c = Some st1"
    "\<not> lz78_c.completed st1" "lz78_c.n_bits st1 = 21"
    "lz78_c.bitbuf st1 = DICT_LIMIT (if dsize = 0 then DICT_SIZE_DEFAULT else dsize)"
proof -
  let ?ds = "DICT_LIMIT (if dsize = 0 then DICT_SIZE_DEFAULT else dsize)"
  let ?c = "if c = EOF then int DICT_CODE_EOF else c"
  let ?m = "(ht_dictionary_new ?ds)\<lparr>cur_node := u16 ?c, prev_node := NO_NODE\<rparr>"
  have m: "ht_dictionary_update ((ht_dictionary_new ?ds)\<lparr>cur_node := NO_NODE\<rparr>) (u16 ?c) = Some (- 1, ?m)"
    by (simp add: ht_dictionary_update_def ht_dictionary_new_def Let_def)
  have s: "ht_dictionary_update (ht_dictionary_new ?ds) (u16 ?c) = Some (- 1, ?m)"
    by (simp add: ht_dictionary_update_def ht_dictionary_new_def Let_def)
  define st1 where "st1 = (if ht_dictionary.d_thr ?m \<le> ht_dictionary.d_next ?m
     then (drain (lz78_new_c dsize))\<lparr>lz78_c.bitbuf := ?ds, lz78_c.n_bits := bitlen DICT_SIZE_MAX,
            lz78_c.main := ?m, lz78_c.secondary := ?m\<rparr>
     else (drain (lz78_new_c dsize))\<lparr>lz78_c.bitbuf := ?ds, lz78_c.n_bits := bitlen DICT_SIZE_MAX,
            lz78_c.main := ?m\<rparr>)"
  have step: "compress_byte (drain (lz78_new_c dsize)) c = Some st1"
    unfolding st1_def
    by (simp add: compress_byte_def compress_update_def lz78_new_c_def drain_def Let_def m s)
  show thesis
    by (rule that[OF step])
       (simp_all add: st1_def lz78_new_c_def drain_def Let_def bitlen_DICT_SIZE_MAX)
qed

lemma compress_written_prefix: "\<exists>ys. compress_written n st inp out = out @ ys"
proof (induction n arbitrary: st inp out)
  case 0
  show ?case by simp
next
  case (Suc n)
  let ?out1 = "bit_write out (lz78_c.bitbuf st) (lz78_c.n_bits st)"
  show ?case
  proof (cases "compress_byte (drain st) (case inp of [] \<Rightarrow> EOF | c # cs \<Rightarrow> c)")
    case None
    then show ?thesis by (simp add: bit_write_def)
  next
    case (Some st')
    show ?thesis
    proof (cases "lz78_c.completed st'")
      case True
      with Some show ?thesis by (simp add: bit_write_def bit_close_def)
    next
      case False
      from Suc.IH[of st' "tl inp" ?out1] obtain ys
        where "compress_written n st' (tl inp) ?out1 = ?out1 @ ys" by blast
      with Some False show ?thesis by (simp add: bit_write_def)
    qed
  qed
qed

text \<open>What \<open>lz78_compress\<close> returns is what its loop has written after some number of turns.\<close>

lemma compress_loop_written:
  assumes "compress_loop st inp out = Some r"
  shows "\<exists>n. compress_written n st inp out = r"
proof (rule compress_loop.raw_induct[where P = "\<lambda>st inp out r.
         \<exists>n. compress_written n st inp out = r", OF _ assms])
  fix f :: "lz78_c \<Rightarrow> int list \<Rightarrow> bool list \<Rightarrow> bool list option"
  fix st inp out r
  assume IH: "\<And>st inp out r. f st inp out = Some r \<Longrightarrow> \<exists>n. compress_written n st inp out = r"
    and eq: "(case compress_byte (drain st) (case inp of [] \<Rightarrow> EOF | c # cs \<Rightarrow> c) of
        None \<Rightarrow> None
      | Some st' \<Rightarrow>
          if lz78_c.completed st' then Some (bit_close (bit_write out (lz78_c.bitbuf st) (lz78_c.n_bits st)))
          else f st' (tl inp) (bit_write out (lz78_c.bitbuf st) (lz78_c.n_bits st))) = Some r"
  from eq obtain st' where st': "compress_byte (drain st) (case inp of [] \<Rightarrow> EOF | c # cs \<Rightarrow> c) = Some st'"
    by (auto split: option.splits)
  show "\<exists>n. compress_written n st inp out = r"
  proof (cases "lz78_c.completed st'")
    case True
    with eq st' have "compress_written (Suc 0) st inp out = r" by simp
    then show ?thesis ..
  next
    case False
    with eq st' have "f st' (tl inp) (bit_write out (lz78_c.bitbuf st) (lz78_c.n_bits st)) = Some r"
      by simp
    from IH[OF this] obtain n
      where "compress_written n st' (tl inp) (bit_write out (lz78_c.bitbuf st) (lz78_c.n_bits st)) = r"
      by blast
    with st' False have "compress_written (Suc n) st inp out = r" by simp
    then show ?thesis ..
  qed
qed

text \<open>
  Claim C5, as the source has it. For every input and every size, whether or not the
  compressor ever returns, the first two fields that the loop of \<open>lz78_compress\<close> hands
  to \<open>bit_write\<close> are the start marker 258 in \<open>bitlen DICT_SIZE_MIN = 9\<close> bits and then the
  size announcement: the dictionary size after \<open>DICT_LIMIT\<close>, between 261 and 1048576, in
  the 21 bits \<open>bitlen DICT_SIZE_MAX\<close>, least significant bit first; they are written
  within the first two turns of the loop. A stream that \<open>lz78_compress\<close> returns begins
  with these two fields.
\<close>

theorem C5_stream_head:
  "(\<exists>rest. compress_written (Suc (Suc n)) (lz78_new_c dsize) inp [] =
      le_bits 9 DICT_CODE_START @
      le_bits 21 (DICT_LIMIT (if dsize = 0 then DICT_SIZE_DEFAULT else dsize)) @ rest) \<and>
   DICT_SIZE_MIN + 1 \<le> DICT_LIMIT (if dsize = 0 then DICT_SIZE_DEFAULT else dsize) \<and>
   DICT_LIMIT (if dsize = 0 then DICT_SIZE_DEFAULT else dsize) \<le> DICT_SIZE_MAX \<and>
   (\<forall>bits. lz78_compress dsize inp = Some bits \<longrightarrow>
      take 9 bits = le_bits 9 DICT_CODE_START \<and>
      take 21 (drop 9 bits) =
        le_bits 21 (DICT_LIMIT (if dsize = 0 then DICT_SIZE_DEFAULT else dsize)))"
proof -
  let ?ds = "DICT_LIMIT (if dsize = 0 then DICT_SIZE_DEFAULT else dsize)"
  let ?c = "case inp of [] \<Rightarrow> EOF | c # cs \<Rightarrow> c"
  let ?head = "le_bits 9 DICT_CODE_START @ le_bits 21 ?ds"
  obtain st1 where st1: "compress_byte (drain (lz78_new_c dsize)) ?c = Some st1"
    "\<not> lz78_c.completed st1" "lz78_c.n_bits st1 = 21" "lz78_c.bitbuf st1 = ?ds"
    by (rule first_call_any)
  have start: "lz78_c.bitbuf (lz78_new_c dsize) = DICT_CODE_START" "lz78_c.n_bits (lz78_new_c dsize) = 9"
    by (simp_all add: lz78_new_c_def Let_def bitlen_DICT_SIZE_MIN)
  have turn1: "compress_written (Suc m) (lz78_new_c dsize) inp [] =
               compress_written m st1 (tl inp) (le_bits 9 DICT_CODE_START)" for m
    by (simp add: st1 start bit_write_def)
  have written: "\<exists>rest. compress_written (Suc (Suc m)) (lz78_new_c dsize) inp [] = ?head @ rest" for m
  proof (cases "compress_byte (drain st1) (case tl inp of [] \<Rightarrow> EOF | c # cs \<Rightarrow> c)")
    case None
    then have "compress_written (Suc m) st1 (tl inp) (le_bits 9 DICT_CODE_START) = ?head"
      by (simp add: st1 bit_write_def)
    then show ?thesis unfolding turn1 by simp
  next
    case (Some st2)
    show ?thesis
    proof (cases "lz78_c.completed st2")
      case True
      with Some have "compress_written (Suc m) st1 (tl inp) (le_bits 9 DICT_CODE_START) =
                      bit_close ?head"
        by (simp add: st1 bit_write_def)
      then show ?thesis unfolding turn1 by (simp add: bit_close_def)
    next
      case False
      from compress_written_prefix[of m st2 "tl (tl inp)" ?head] obtain ys
        where "compress_written m st2 (tl (tl inp)) ?head = ?head @ ys" by blast
      with Some False have "compress_written (Suc m) st1 (tl inp) (le_bits 9 DICT_CODE_START) =
                            ?head @ ys"
        by (simp add: st1 bit_write_def)
      then show ?thesis unfolding turn1 by simp
    qed
  qed
  have returned: "take 9 bits = le_bits 9 DICT_CODE_START \<and> take 21 (drop 9 bits) = le_bits 21 ?ds"
    if "lz78_compress dsize inp = Some bits" for bits
  proof -
    from that have "compress_loop st1 (tl inp) (le_bits 9 DICT_CODE_START) = Some bits"
      unfolding lz78_compress_def
      by (subst (asm) compress_loop.simps) (simp add: st1 start bit_write_def)
    from compress_loop_prefix[OF this] st1(3,4)
    obtain ys where "bits = le_bits 9 DICT_CODE_START @ le_bits 21 ?ds @ ys" by auto
    then show ?thesis by simp
  qed
  from written[of n] have w: "\<exists>rest. compress_written (Suc (Suc n)) (lz78_new_c dsize) inp [] =
      le_bits 9 DICT_CODE_START @ le_bits 21 ?ds @ rest" by simp
  from DICT_LIMIT_range[of "if dsize = 0 then DICT_SIZE_DEFAULT else dsize"]
  have rng: "DICT_SIZE_MIN + 1 \<le> ?ds \<and> ?ds \<le> DICT_SIZE_MAX" by simp
  from returned have ret: "\<forall>bits. lz78_compress dsize inp = Some bits \<longrightarrow>
      take 9 bits = le_bits 9 DICT_CODE_START \<and> take 21 (drop 9 bits) = le_bits 21 ?ds" by blast
  from w rng ret show ?thesis by (intro conjI) (erule conjunct1 conjunct2 | assumption)+
qed

lemmas enc_eval = compress_byte_def compress_update_def ht_dictionary_update_def ht_search.simps
  ht_hash_def hash_round_def bitlen.simps u16_def u32_def sub1_def lz78_new_c_def
  ht_dictionary_new_def DICT_LIMIT_def DICT_SIZE_THRESHOLD_def ht_dictionary_reset_def ht_zero_def
  Let_def drain_def

lemma compress_empty:
  "lz78_compress 4096 [] = Some (le_bits 9 258 @ le_bits 21 4096 @ le_bits 9 256 @ [False])"
  unfolding lz78_compress_def
  by (simp add: compress_loop.simps enc_eval bit_write_def bit_close_def le_bits_numeral)

lemma decompress_data_ret:
  "decompress_data st m s code = Some (Inr (r, st')) \<Longrightarrow> r = 0"
  by (auto simp: decompress_data_def split: sum.splits option.splits if_splits prod.splits)

lemma decompress_code_minus2:
  "decompress_code hp st code = Some (Inr (- 2, st')) \<longleftrightarrow>
     st' = st \<and> code \<noteq> DICT_CODE_EOF \<and> code \<noteq> DICT_CODE_SIZE \<and> code \<noteq> DICT_CODE_START \<and>
     lz78_d.secondary st = None \<and>
     (\<exists>m. lz78_d.main st = Some m \<and> d_next m \<noteq> DICT_SIZE_MAX)"
  by (auto simp: decompress_code_def split: option.splits dest: decompress_data_ret)

lemma decompress_code_minus1:
  "decompress_code hp st code = Some (Inr (- 1, st')) \<longleftrightarrow>
     code \<noteq> DICT_CODE_EOF \<and> code \<noteq> DICT_CODE_SIZE \<and> code \<noteq> DICT_CODE_START \<and>
     (\<exists>m. lz78_d.main st = Some m \<and> d_next m = DICT_SIZE_MAX) \<and>
     (\<not> dictionary_ok hp \<and> st' = st\<lparr>lz78_d.main := None\<rparr> \<or>
      dictionary_ok hp \<and> \<not> ht_dictionary_ok hp \<and>
        st' = st\<lparr>lz78_d.main := None, lz78_d.secondary := None\<rparr>)"
  by (auto simp: decompress_code_def split: option.splits dest: decompress_data_ret)

lemma decompress_code_ret:
  "decompress_code hp st code = Some (Inr (r, st')) \<Longrightarrow> r = 0 \<or> r = - 1 \<or> r = - 2"
  by (auto simp: decompress_code_def split: option.splits if_splits dest: decompress_data_ret)

text \<open>
  Claim C4, as the source has it. A call of \<open>decompress_code\<close> that returns an error
  returns \<open>-2\<close> and leaves the state as it was, or returns \<open>-1\<close> (no memory for the new
  dictionaries) after it has destroyed the main dictionary: \<open>main\<close> is then the null
  pointer, and the secondary dictionary is untouched or destroyed too.
\<close>

theorem C4_terminal_errors:
  assumes "decompress_code hp st code = Some (Inr (r, st'))" and "r < 0"
  shows "(r = - 2 \<and> st' = st) \<or>
         (r = - 1 \<and> lz78_d.main st \<noteq> None \<and> lz78_d.main st' = None \<and>
            (lz78_d.secondary st' = lz78_d.secondary st \<or> lz78_d.secondary st' = None) \<and>
            lz78_d.completed st' = lz78_d.completed st \<and> lz78_d.bitbuf st' = lz78_d.bitbuf st \<and>
            lz78_d.n_bits st' = lz78_d.n_bits st)"
proof -
  from decompress_code_ret[OF assms(1)] assms(2) consider "r = - 2" | "r = - 1" by auto
  then show ?thesis
  proof cases
    case 1
    with assms(1) show ?thesis by (simp add: decompress_code_minus2)
  next
    case 2
    with assms(1) show ?thesis by (auto simp: decompress_code_minus1)
  qed
qed

lemma le_val_take_9_bound: "le_val (take 9 inp) < 512"
proof -
  have "le_val bs < 2 ^ length bs" for bs
    by (induction bs) auto
  from this[of "take 9 inp"] have "le_val (take 9 inp) < 2 ^ length (take 9 inp)" .
  also have "\<dots> \<le> 2 ^ 9" by (intro power_increasing) simp_all
  finally show ?thesis by simp
qed

text \<open>
  What \<open>lz78_decompress\<close> does with a stream whose first code is a data code, for every
  content of the memory that \<open>lz78_new\<close> and \<open>dictionary_new\<close> leave uninitialised.
\<close>

lemma bootstrap_violation:
  assumes "9 \<le> length inp" and "le_val (take 9 inp) \<noteq> DICT_CODE_EOF"
    and "le_val (take 9 inp) \<noteq> DICT_CODE_SIZE" and "le_val (take 9 inp) \<noteq> DICT_CODE_START"
  shows "lz78_decompress hp inp =
           (if n_bytes (dictionary_mem hp) \<noteq> 0 \<and>
               DICT_SIZE_MIN < offset (dictionary_mem hp) + n_bytes (dictionary_mem hp)
            then Some (Inl Out_Of_Bounds, [])
            else if lz78_d.secondary (instance_mem hp) = None
            then Some (Inr LZ78_ERROR_DECOMPRESS,
                       if n_bytes (dictionary_mem hp) \<noteq> 0
                       then published (dictionary_new (dictionary_mem hp) DICT_SIZE_MIN) else [])
            else Some (Inl Out_Of_Bounds,
                       if n_bytes (dictionary_mem hp) \<noteq> 0
                       then published (dictionary_new (dictionary_mem hp) DICT_SIZE_MIN) else []))"
proof -
  let ?c = "le_val (take 9 inp)"
  let ?m = "dictionary_new (dictionary_mem hp) DICT_SIZE_MIN"
  let ?st = "(lz78_new_d hp)\<lparr>lz78_d.bitbuf := ?c, lz78_d.n_bits := 9\<rparr>"
  have m: "lz78_d.main (lz78_new_d hp) = Some ?m" "n_bytes ?m = n_bytes (dictionary_mem hp)"
    "offset ?m = offset (dictionary_mem hp)" "bytebuf_size ?m = DICT_SIZE_MIN"
    "d_next ?m = DICT_SIZE_MIN"
    by (simp_all add: lz78_new_d_def dictionary_new_def Let_def)
  have code: "decompress_code hp ?st ?c =
                (if lz78_d.secondary (instance_mem hp) = None then Some (Inr (- 2, ?st))
                 else Some (Inl Out_Of_Bounds))"
    using assms(2-4)
    by (auto simp: decompress_code_def decompress_data_def dictionary_update_def recover.simps
          lz78_new_d_def dictionary_new_def Let_def DICT_LIMIT_def sub1_def)
  show ?thesis
    using assms(1) unfolding lz78_decompress_def
    by (subst decompress_loop.simps) (simp add: m code Let_def bitlen_DICT_SIZE_MIN)
qed

text \<open>
  Claim C3, as the source has it. \<open>decompress_code\<close> returns \<open>-2\<close>, which \<open>lz78_decompress\<close>
  reports as \<open>LZ78_ERROR_DECOMPRESS\<close>, exactly when a code other than 256, 257 and 258
  arrives while the main dictionary is not waiting for its size and the pointer
  \<open>secondary\<close> is null, and it leaves the state as it was; no code is ever compared with
  \<open>d_next\<close>. For a stream whose first code is such a code (a bootstrap violation) the
  result is given for every content of the memory that \<open>lz78_new\<close> does not initialise:
  the error is returned when the field \<open>secondary\<close> holds the null pointer, and nothing
  has been written before when the field \<open>n_bytes\<close> of the first dictionary holds zero;
  when \<open>secondary\<close> is not null, \<open>dictionary_update\<close> runs and its first store is
  \<open>bytebuf[260]\<close> in the buffer of 260 bytes of the first dictionary.
\<close>

theorem C3_decompress_error:
  assumes "9 \<le> length inp" and "le_val (take 9 inp) \<noteq> DICT_CODE_EOF"
    and "le_val (take 9 inp) \<noteq> DICT_CODE_SIZE" and "le_val (take 9 inp) \<noteq> DICT_CODE_START"
  shows "(decompress_code hp st code = Some (Inr (- 2, st')) \<longleftrightarrow>
      st' = st \<and> code \<noteq> DICT_CODE_EOF \<and> code \<noteq> DICT_CODE_SIZE \<and> code \<noteq> DICT_CODE_START \<and>
      lz78_d.secondary st = None \<and>
      (\<exists>m. lz78_d.main st = Some m \<and> d_next m \<noteq> DICT_SIZE_MAX)) \<and>
    lz78_decompress hp inp =
      (if n_bytes (dictionary_mem hp) \<noteq> 0 \<and>
          DICT_SIZE_MIN < offset (dictionary_mem hp) + n_bytes (dictionary_mem hp)
       then Some (Inl Out_Of_Bounds, [])
       else if lz78_d.secondary (instance_mem hp) = None
       then Some (Inr LZ78_ERROR_DECOMPRESS,
                  if n_bytes (dictionary_mem hp) \<noteq> 0
                  then published (dictionary_new (dictionary_mem hp) DICT_SIZE_MIN) else [])
       else Some (Inl Out_Of_Bounds,
                  if n_bytes (dictionary_mem hp) \<noteq> 0
                  then published (dictionary_new (dictionary_mem hp) DICT_SIZE_MIN) else []))"
  using bootstrap_violation[OF assms] decompress_code_minus2 by simp

lemma denotes_nonempty: "denotes rt dsize p s \<Longrightarrow> s \<noteq> []"
  by (induction rule: denotes.induct) auto

lemma recover_denotes:
  assumes "denotes rt dsize p s" and "length s \<le> i" and "i < bsize"
  shows "\<exists>buf'. recover rt dsize buf bsize i p = Inr (buf', i - length s) \<and>
           (\<forall>k < length s. buf' (i - length s + 1 + k) = s ! k) \<and>
           (\<forall>j. j \<le> i - length s \<or> i < j \<longrightarrow> buf' j = buf j)"
  using assms
proof (induction arbitrary: i buf rule: denotes.induct)
  case (literal p)
  then have "0 < i" by simp
  with literal show ?case
    by (auto simp: recover.simps[of rt dsize buf bsize i p] sub1_def)
next
  case (dynamic p s)
  from denotes_nonempty[OF dynamic(3)] have ls: "0 < length s" by simp
  with dynamic.prems have i2: "2 \<le> i" by (cases s) auto
  let ?b = "buf(i := label (rt p) mod 256)"
  have rec: "recover rt dsize buf bsize i p = recover rt dsize ?b bsize (i - 1) (parent (rt p))"
    using dynamic(1,2) dynamic.prems i2
    by (simp add: recover.simps[of rt dsize buf bsize i p] sub1_def)
  from dynamic.prems have "length s \<le> i - 1" "i - 1 < bsize" by simp_all
  from dynamic.IH[OF this, of ?b] obtain buf' where
    r: "recover rt dsize ?b bsize (i - 1) (parent (rt p)) = Inr (buf', i - 1 - length s)"
    and c: "\<forall>k < length s. buf' (i - 1 - length s + 1 + k) = s ! k"
    and o: "\<forall>j. j \<le> i - 1 - length s \<or> i - 1 < j \<longrightarrow> buf' j = ?b j"
    by blast
  have idx: "i - length (s @ [label (rt p) mod 256]) = i - 1 - length s" by simp
  have "buf' i = label (rt p) mod 256" using o i2 by simp
  moreover have "i - 1 - length s + 1 + length s = i" using dynamic.prems by simp
  ultimately have c': "\<forall>k < length (s @ [label (rt p) mod 256]).
        buf' (i - 1 - length s + 1 + k) = (s @ [label (rt p) mod 256]) ! k"
    using c by (auto simp: nth_append less_Suc_eq)
  have o': "\<forall>j. j \<le> i - 1 - length s \<or> i < j \<longrightarrow> buf' j = buf j"
    using o dynamic.prems by auto
  show ?case unfolding rec idx using r c' o' by blast
qed

lemma mod32_shift: "x < 4294967296 \<Longrightarrow> y = x + 4294967296 \<Longrightarrow> y mod 4294967296 = (x::nat)"
  by simp

lemma dictionary_update_arith:
  assumes "DICT_SIZE_MIN < ds" and "ds \<le> DICT_SIZE_MAX" and "i < ds"
  shows "sub1 ds = ds - 1" and "(i + 1) mod 4294967296 = i + 1"
    and "(ds - 1 + 4294967296 - i) mod 4294967296 = ds - 1 - i"
    and "(ds - 1 + 1 + 4294967296 - (ds - 1 - i)) mod 4294967296 = i + 1"
proof -
  show "sub1 ds = ds - 1" using assms by (simp add: sub1_def)
  show "(i + 1) mod 4294967296 = i + 1" using assms by simp
  show "(ds - 1 + 4294967296 - i) mod 4294967296 = ds - 1 - i"
    by (rule mod32_shift) (use assms in linarith)+
  show "(ds - 1 + 1 + 4294967296 - (ds - 1 - i)) mod 4294967296 = i + 1"
    by (rule mod32_shift) (use assms in linarith)+
qed

lemma dictionary_update_plain:
  assumes wf: "dict_wf d"
    and rec: "recover (root d) (d_size d) (bytebuf d) (bytebuf_size d) (d_size d - 1) code = Inr (buf, i)"
    and i: "i < d_size d" and nk: "\<not> (d_min d \<le> code \<and> code = d_next d - 1)"
    and np: "d_next d = d_min d"
  shows "dictionary_update d code =
    Inr (d\<lparr>root := (root d)(d_next d := (root d (d_next d))\<lparr>parent := code\<rparr>),
           bytebuf := buf, n_bytes := d_size d - 1 - i, offset := i + 1, d_next := d_next d + 1\<rparr>)"
proof -
  from wf have ds: "DICT_SIZE_MIN < d_size d" "d_size d \<le> DICT_SIZE_MAX"
    and dn: "d_next d < d_size d" "DICT_SIZE_MIN \<le> d_next d"
    by (simp_all add: dict_wf_def)
  note ar = dictionary_update_arith[OF ds i]
  have s1: "sub1 (d_next d) = d_next d - 1" using dn by (simp add: sub1_def)
  show ?thesis
    unfolding dictionary_update_def Let_def ar rec s1 sum.case prod.case
    using nk np dn by auto
qed

lemma dictionary_update_pending:
  assumes wf: "dict_wf d"
    and rec: "recover (root d) (d_size d) (bytebuf d) (bytebuf_size d) (d_size d - 1) code = Inr (buf, i)"
    and i: "i < d_size d" and nk: "\<not> (d_min d \<le> code \<and> code = d_next d - 1)"
    and p: "d_min d < d_next d"
  shows "dictionary_update d code =
    Inr (d\<lparr>root := (root d)(d_next d - 1 := (root d (d_next d - 1))\<lparr>label := buf (i + 1)\<rparr>,
                          d_next d := (root d (d_next d))\<lparr>parent := code\<rparr>),
           bytebuf := buf, n_bytes := d_size d - 1 - i, offset := i + 1, d_next := d_next d + 1\<rparr>)"
proof -
  from wf have ds: "DICT_SIZE_MIN < d_size d" "d_size d \<le> DICT_SIZE_MAX"
    and dn: "d_next d < d_size d" "DICT_SIZE_MIN \<le> d_next d"
    by (simp_all add: dict_wf_def)
  note ar = dictionary_update_arith[OF ds i]
  have s1: "sub1 (d_next d) = d_next d - 1" using dn by (simp add: sub1_def)
  show ?thesis
    unfolding dictionary_update_def Let_def ar rec s1 sum.case prod.case
    using nk p dn by auto
qed

lemma dictionary_update_kwkwk:
  assumes wf: "dict_wf d"
    and rec: "recover (root d) (d_size d) (bytebuf d) (bytebuf_size d) (d_size d - 1) code = Inr (buf, i)"
    and i: "i < d_size d" and k: "d_min d \<le> code" "code = d_next d - 1"
  shows "dictionary_update d code =
    Inr (d\<lparr>root := (root d)(d_next d - 1 := (root d (d_next d - 1))
                             \<lparr>label := (buf(d_size d - 1 := buf (i + 1))) (i + 1)\<rparr>,
                          d_next d := (root d (d_next d))\<lparr>parent := code\<rparr>),
           bytebuf := buf(d_size d - 1 := buf (i + 1)),
           n_bytes := d_size d - 1 - i, offset := i + 1, d_next := d_next d + 1\<rparr>)"
proof -
  from wf have ds: "DICT_SIZE_MIN < d_size d" "d_size d \<le> DICT_SIZE_MAX"
    and dn: "d_next d < d_size d" "DICT_SIZE_MIN \<le> d_next d"
    by (simp_all add: dict_wf_def)
  note ar = dictionary_update_arith[OF ds i]
  have s1: "sub1 (d_next d) = d_next d - 1" using dn by (simp add: sub1_def)
  from k dn have p: "d_min d < d_next d" by simp
  show ?thesis
    unfolding dictionary_update_def Let_def ar rec s1 sum.case prod.case
    using k p dn by auto
qed

lemma published_eq:
  assumes "n_bytes d = length s" and "\<forall>k < length s. bytebuf d (offset d + k) = s ! k"
  shows "published d = s"
proof (rule nth_equalityI)
  show "length (published d) = length s" using assms(1) by (simp add: published_def)
  fix k assume "k < length (published d)"
  then have "k < length s" using assms(1) by (simp add: published_def)
  with assms show "published d ! k = s ! k" by (simp add: published_def)
qed

text \<open>
  Claim C6, as the source has it. For a dictionary in its ranges and a code that
  resolves to the string \<open>s\<close>, \<open>dictionary_update\<close> succeeds; the first byte is duplicated
  at \<open>bytebuf[d_size - 1]\<close> when the code is \<open>d_next - 1\<close> and not below \<open>d_min\<close>; a pending
  entry \<open>d_next - 1\<close> receives the label \<open>bytebuf[i + 1]\<close>; and afterwards
  \<open>n_bytes = d_size - 1 - i\<close>, \<open>offset = d_size - n_bytes\<close> and the published bytes are \<open>s\<close>.
\<close>

theorem C6_dictionary_update:
  assumes wf: "dict_wf d" and res: "resolves d code s" and len: "length s < d_size d"
  shows "\<exists>d' buf i.
           recover (root d) (d_size d) (bytebuf d) (bytebuf_size d) (d_size d - 1) code = Inr (buf, i) \<and>
           dictionary_update d code = Inr d' \<and>
           n_bytes d' = d_size d - 1 - i \<and> offset d' = d_size d - n_bytes d' \<and>
           published d' = s \<and>
           bytebuf d' = (if d_min d \<le> code \<and> code = d_next d - 1
                         then buf(d_size d - 1 := buf (i + 1)) else buf) \<and>
           root d' = (if d_min d < d_next d
                      then (root d)(d_next d - 1 := (root d (d_next d - 1))\<lparr>label := bytebuf d' (i + 1)\<rparr>)
                      else root d)
                     (d_next d := (root d (d_next d))\<lparr>parent := code\<rparr>) \<and>
           d_next d' = d_next d + 1"
proof -
  let ?D = "d_size d" and ?rt = "root d"
  from wf have ds: "DICT_SIZE_MIN < ?D" "?D \<le> bytebuf_size d"
    and dm: "DICT_SIZE_MIN \<le> d_min d" and dn: "d_next d < ?D" "d_min d \<le> d_next d"
    by (simp_all add: dict_wf_def)
  define top where "top = ?D - 1"
  have top: "?D = top + 1" using ds by (simp add: top_def)
  show ?thesis
  proof (cases "d_min d \<le> code \<and> code = d_next d - 1")
    case True
    then have k: "d_min d \<le> code" "code = d_next d - 1" by simp_all
    from res True obtain s0 where cd: "code < ?D"
      and s0: "denotes ?rt ?D (parent (?rt code)) s0" and s: "s = s0 @ [hd s0]"
      by (auto simp: resolves_def)
    define s' where "s' = s0 @ [label (?rt code) mod 256]"
    from k dm have "DICT_SIZE_MIN \<le> code" by simp
    from denotes.dynamic[OF this cd s0] have den: "denotes ?rt ?D code s'" by (simp add: s'_def)
    have ne: "s0 \<noteq> []" using s0 by (rule denotes_nonempty)
    have l': "length s' = length s" using s by (simp add: s'_def)
    define i where "i = top - length s"
    have il: "top = i + length s" using len top by (simp add: i_def)
    have "length s' \<le> ?D - 1" "?D - 1 < bytebuf_size d" using len ds l' by simp_all
    from recover_denotes[OF den this, of "bytebuf d"] obtain buf where
      rec: "recover ?rt ?D (bytebuf d) (bytebuf_size d) (?D - 1) code = Inr (buf, i)"
      and cont: "\<forall>k < length s'. buf (i + 1 + k) = s' ! k"
      unfolding l' i_def top_def by blast
    have i: "i < ?D" using il top by simp
    note upd = dictionary_update_kwkwk[OF wf rec i k]
    define d' where "d' = d\<lparr>root := (?rt)(d_next d - 1 := (?rt (d_next d - 1))
                             \<lparr>label := (buf(?D - 1 := buf (i + 1))) (i + 1)\<rparr>,
                          d_next d := (?rt (d_next d))\<lparr>parent := code\<rparr>),
           bytebuf := buf(?D - 1 := buf (i + 1)),
           n_bytes := ?D - 1 - i, offset := i + 1, d_next := d_next d + 1\<rparr>"
    have nb: "n_bytes d' = length s" using il top by (simp add: d'_def)
    have ofs: "offset d' = i + 1" by (simp add: d'_def)
    have bb: "bytebuf d' = buf(top := buf (i + 1))" by (simp add: d'_def top_def)
    have first: "buf (i + 1) = hd s0"
      using cont[rule_format, of 0] ne by (simp add: s'_def nth_append hd_conv_nth)
    have ls: "length s = Suc (length s0)" using s by simp
    have pub: "published d' = s"
    proof (rule published_eq[OF nb], intro allI impI)
      fix j assume j: "j < length s"
      show "bytebuf d' (offset d' + j) = s ! j"
      proof (cases "j = length s0")
        case True
        then have "i + 1 + j = top" using il ls by simp
        then have "bytebuf d' (offset d' + j) = buf (i + 1)" unfolding ofs bb by simp
        also have "\<dots> = s ! j" using True first s by (simp add: nth_append)
        finally show ?thesis .
      next
        case False
        with j ls have j0: "j < length s0" by simp
        then have "i + 1 + j \<noteq> top" using il ls by simp
        then have "bytebuf d' (offset d' + j) = buf (i + 1 + j)" unfolding ofs bb by simp
        also have "\<dots> = s' ! j" using cont[rule_format, of j] j0 by (simp add: s'_def)
        also have "\<dots> = s ! j" using j0 s by (simp add: s'_def nth_append)
        finally show ?thesis .
      qed
    qed
    have p: "d_min d < d_next d" using k dn dm by simp
    have "n_bytes d' = ?D - 1 - i \<and> offset d' = ?D - n_bytes d'"
      using il top by (simp add: d'_def)
    moreover have "d_next d' = d_next d + 1" by (simp add: d'_def)
    moreover have "bytebuf d' = (if d_min d \<le> code \<and> code = d_next d - 1
                         then buf(d_size d - 1 := buf (i + 1)) else buf)"
      using True by (simp add: d'_def)
    moreover have "root d' = (if d_min d < d_next d
                      then (root d)(d_next d - 1 := (root d (d_next d - 1))\<lparr>label := bytebuf d' (i + 1)\<rparr>)
                      else root d)
                     (d_next d := (root d (d_next d))\<lparr>parent := code\<rparr>)"
      using p by (simp add: d'_def)
    ultimately show ?thesis
      using rec upd[folded d'_def] pub by blast
  next
    case False
    with res have den: "denotes ?rt ?D code s" by (simp add: resolves_def)
    define i where "i = top - length s"
    have il: "top = i + length s" using len top by (simp add: i_def)
    have "length s \<le> ?D - 1" "?D - 1 < bytebuf_size d" using len ds by simp_all
    from recover_denotes[OF den this, of "bytebuf d"] obtain buf where
      rec: "recover ?rt ?D (bytebuf d) (bytebuf_size d) (?D - 1) code = Inr (buf, i)"
      and cont: "\<forall>k < length s. buf (i + 1 + k) = s ! k"
      unfolding i_def top_def by blast
    have i: "i < ?D" using il top by simp
    define rt' where "rt' = (if d_min d < d_next d
                      then (?rt)(d_next d - 1 := (?rt (d_next d - 1))\<lparr>label := buf (i + 1)\<rparr>)
                      else ?rt) (d_next d := (?rt (d_next d))\<lparr>parent := code\<rparr>)"
    define d' where "d' = d\<lparr>root := rt', bytebuf := buf, n_bytes := ?D - 1 - i, offset := i + 1,
                              d_next := d_next d + 1\<rparr>"
    have upd: "dictionary_update d code = Inr d'"
    proof (cases "d_min d < d_next d")
      case True
      from dictionary_update_pending[OF wf rec i False True] show ?thesis
        using True by (simp add: d'_def rt'_def)
    next
      case np: False
      with dn have e: "d_next d = d_min d" by simp
      from dictionary_update_plain[OF wf rec i False e] show ?thesis
        using np by (simp add: d'_def rt'_def)
    qed
    have nb: "n_bytes d' = length s" using il top by (simp add: d'_def)
    have pub: "published d' = s"
      by (rule published_eq[OF nb]) (use cont in \<open>simp add: d'_def\<close>)
    have "n_bytes d' = ?D - 1 - i \<and> offset d' = ?D - n_bytes d'"
      using il top by (simp add: d'_def)
    moreover have "d_next d' = d_next d + 1" by (simp add: d'_def)
    moreover have "bytebuf d' = (if d_min d \<le> code \<and> code = d_next d - 1
                         then buf(d_size d - 1 := buf (i + 1)) else buf)"
      using False by (auto simp: d'_def)
    moreover have "root d' = (if d_min d < d_next d
                      then (root d)(d_next d - 1 := (root d (d_next d - 1))\<lparr>label := bytebuf d' (i + 1)\<rparr>)
                      else root d)
                     (d_next d := (root d (d_next d))\<lparr>parent := code\<rparr>)"
      by (simp add: d'_def rt'_def)
    ultimately show ?thesis
      using rec upd pub by blast
  qed
qed

lemma copy_entries_from:
  assumes "i \<le> ht_dictionary.d_size s"
    and "length (filter (\<lambda>j. used (ht_dictionary.root s j)) [i..<ht_dictionary.d_size s])
           \<le> ht_dictionary.d_next s"
    and "\<forall>j \<in> set (filter (\<lambda>j. used (ht_dictionary.root s j)) [i..<ht_dictionary.d_size s]).
           child (ht_dictionary.root s j) < d_size m"
  shows "copy_entries m s i =
     Inr (m\<lparr>root := fold (\<lambda>j. copy_entry (ht_dictionary.root s j))
                        (filter (\<lambda>j. used (ht_dictionary.root s j)) [i..<ht_dictionary.d_size s]) (root m)\<rparr>,
          s\<lparr>ht_dictionary.d_next := ht_dictionary.d_next s -
               length (filter (\<lambda>j. used (ht_dictionary.root s j)) [i..<ht_dictionary.d_size s])\<rparr>)"
  using assms
proof (induction "ht_dictionary.d_size s - i" arbitrary: m s i)
  case 0
  then have "i = ht_dictionary.d_size s" by simp
  then show ?case by (simp add: copy_entries.simps[of m s "ht_dictionary.d_size s"])
next
  case (Suc n)
  let ?ds = "ht_dictionary.d_size s" and ?rt = "ht_dictionary.root s"
  from Suc(2) have i: "i < ?ds" by simp
  then have upt: "[i..<?ds] = i # [Suc i..<?ds]" by (rule upt_conv_Cons)
  show ?case
  proof (cases "used (?rt i)")
    case False
    have "copy_entries m s i = (if ht_dictionary.d_next s \<noteq> 0 then copy_entries m s (i + 1) else Inr (m, s))"
      using i False by (simp add: copy_entries.simps[of m s i])
    moreover have "copy_entries m s (i + 1) =
       Inr (m\<lparr>root := fold (\<lambda>j. copy_entry (?rt j)) (filter (\<lambda>j. used (?rt j)) [i + 1..<?ds]) (root m)\<rparr>,
          s\<lparr>ht_dictionary.d_next := ht_dictionary.d_next s - length (filter (\<lambda>j. used (?rt j)) [i + 1..<?ds])\<rparr>)"
      using Suc(1)[of s "i + 1" m] Suc(2-) i False by (simp add: upt)
    moreover have "ht_dictionary.d_next s = 0 \<Longrightarrow> filter (\<lambda>j. used (?rt j)) [i + 1..<?ds] = []"
      using Suc(4) False by (simp add: upt)
    ultimately show ?thesis using False by (auto simp: upt)
  next
    case True
    with Suc(4) have dn: "ht_dictionary.d_next s \<noteq> 0" by (auto simp: upt)
    from Suc(5) True have cb: "child (?rt i) < d_size m" by (simp add: upt)
    let ?m' = "m\<lparr>root := (root m)(child (?rt i) :=
                     \<lparr>parent = ht_entry.parent (?rt i), label = ht_entry.label (?rt i)\<rparr>)\<rparr>"
    let ?s' = "s\<lparr>ht_dictionary.d_next := ht_dictionary.d_next s - 1\<rparr>"
    have "copy_entries m s i = copy_entries ?m' ?s' (i + 1)"
      using i True dn cb by (simp add: copy_entries.simps[of m s i])
    moreover have "copy_entries ?m' ?s' (i + 1) =
       Inr (?m'\<lparr>root := fold (\<lambda>j. copy_entry (?rt j)) (filter (\<lambda>j. used (?rt j)) [i + 1..<?ds]) (root ?m')\<rparr>,
          ?s'\<lparr>ht_dictionary.d_next := ht_dictionary.d_next ?s' - length (filter (\<lambda>j. used (?rt j)) [i + 1..<?ds])\<rparr>)"
      using Suc(1)[of ?s' "i + 1" ?m'] Suc(2-) i True by (simp add: upt)
    ultimately show ?thesis using True by (simp add: upt copy_entry_def)
  qed
qed

lemma rotate_spec:
  assumes "length (used_slots s) \<le> ht_dictionary.d_next s"
    and "list_all (\<lambda>i. child (ht_dictionary.root s i) < d_size m) (used_slots s)"
  shows "rotate m s = Inr (rotation_spec m s)"
proof -
  let ?m2 = "(dictionary_reset m)\<lparr>d_min := ht_dictionary.d_next s, d_next := ht_dictionary.d_next s\<rparr>"
  have "copy_entries ?m2 s 0 =
     Inr (?m2\<lparr>root := fold (\<lambda>j. copy_entry (ht_dictionary.root s j)) (used_slots s) (root ?m2)\<rparr>,
          s\<lparr>ht_dictionary.d_next := ht_dictionary.d_next s - length (used_slots s)\<rparr>)"
    using copy_entries_from[of 0 s ?m2] assms
    by (simp add: used_slots_def list_all_iff dictionary_reset_def)
  then show ?thesis by (simp add: rotate_def rotation_spec_def Let_def)
qed

lemma fold_copy_other:
  assumes "\<forall>i \<in> set xs. child (f i) \<noteq> c"
  shows "fold (\<lambda>i. copy_entry (f i)) xs rt c = rt c"
  using assms by (induction xs arbitrary: rt) (auto simp: copy_entry_def)

text \<open>
  While the secondary table holds no more entries than its counter says, and their
  children are dynamic codes inside the main table, the rotation of \<open>decompress_code\<close>
  leaves the two dictionaries of \<open>rotation_spec\<close>, and the entries below 260 of the main
  dictionary are the ones it had.
\<close>

lemma rotation_in_range:
  assumes upd: "dictionary_update m code = Inr m1"
    and feed: "(if d_thr m1 < d_next m1 then ht_feed s (published m1) else Some s) = Some s1"
    and full: "d_next m1 = d_size m1"
    and counted: "length (used_slots s1) \<le> ht_dictionary.d_next s1"
    and inside: "list_all (\<lambda>i. DICT_SIZE_MIN \<le> child (ht_dictionary.root s1 i) \<and>
                              child (ht_dictionary.root s1 i) < d_size m1) (used_slots s1)"
  shows "decompress_data st m s code =
           Some (Inr (0, st\<lparr>lz78_d.main := Some (fst (rotation_spec m1 s1)),
                            lz78_d.secondary := Some (snd (rotation_spec m1 s1))\<rparr>)) \<and>
         (\<forall>c < DICT_SIZE_MIN. root (fst (rotation_spec m1 s1)) c = root m1 c)"
proof -
  from inside have "list_all (\<lambda>i. child (ht_dictionary.root s1 i) < d_size m1) (used_slots s1)"
    by (simp add: list_all_iff)
  from rotate_spec[OF counted this] have "rotate m1 s1 = Inr (rotation_spec m1 s1)" .
  with upd feed full have "decompress_data st m s code =
           Some (Inr (0, st\<lparr>lz78_d.main := Some (fst (rotation_spec m1 s1)),
                            lz78_d.secondary := Some (snd (rotation_spec m1 s1))\<rparr>))"
    by (simp add: decompress_data_def split: prod.splits)
  moreover have "root (fst (rotation_spec m1 s1)) c = root m1 c" if "c < DICT_SIZE_MIN" for c
  proof -
    have "\<forall>i \<in> set (used_slots s1). child (ht_dictionary.root s1 i) \<noteq> c"
      using inside that by (auto simp: list_all_iff)
    from fold_copy_other[OF this] show ?thesis
      by (simp add: rotation_spec_def Let_def dictionary_reset_def)
  qed
  ultimately show ?thesis by blast
qed

lemma bernstein_4:
  "bernstein 4 key hash =
     hash_round (hash_round (hash_round (hash_round hash key) (key div 256))
       (key div 256 div 256)) (key div 256 div 256 div 256)"
proof -
  have "(4::nat) = Suc (Suc (Suc (Suc 0)))" by simp
  then show ?thesis by (simp only: bernstein.simps)
qed

lemmas ht_eval = ht_dictionary_update_def ht_search.simps ht_hash_def bernstein_4 hash_round_def
  bitlen.simps ht_dictionary_new_def ht_dictionary_reset_def ht_zero_def DICT_LIMIT_def
  DICT_SIZE_THRESHOLD_def Let_def sub1_def

lemmas enc_eval2 = ht_eval compress_byte_def compress_update_def u16_def u32_def lz78_new_c_def drain_def
  swaps_def

lemmas dec_eval = ht_eval decompress_code_def decompress_data_def dictionary_update_def recover.simps
  rotate_def copy_entries.simps dictionary_reset_def dictionary_new_def lz78_new_d_def published_def
  upt_rec hp1_def zero_dictionary_def zero_instance_def

text \<open>
  Claim C5, an instance: the empty input with dictionary size 4096, after two turns of
  the loop and in the stream returned.
\<close>

theorem C5_witness:
  "(\<exists>rest. compress_written (Suc (Suc 0)) (lz78_new_c 4096) [] [] =
      le_bits 9 DICT_CODE_START @ le_bits 21 4096 @ rest) \<and>
   lz78_compress 4096 [] = Some (le_bits 9 258 @ le_bits 21 4096 @ le_bits 9 256 @ [False]) \<and>
   take 9 (le_bits 9 258 @ le_bits 21 4096 @ le_bits 9 256 @ [False]) = le_bits 9 DICT_CODE_START \<and>
   take 21 (drop 9 (le_bits 9 258 @ le_bits 21 4096 @ le_bits 9 256 @ [False])) = le_bits 21 4096"
  using C5_stream_head[where n = 0 and dsize = 4096 and inp = "[]"] compress_empty
  by (simp add: DICT_LIMIT_def)

text \<open>
  Claim C5 as the specification words it does not hold: the first 21 bits of the stream
  for the empty input are not the size 4096, they begin with the start marker.
\<close>

theorem C5_counterexample:
  "map_option (take 21) (lz78_compress 4096 []) \<noteq> Some (le_bits 21 4096)"
  by (simp add: compress_empty le_bits_numeral)

lemma emissions_abc:
  "emissions (lz78_new_c 4096) [97, 98, 99, EOF, EOF] =
     [Emission 4096 21 False, Emission 97 9 False, Emission 98 9 False, Emission 99 9 False,
      Emission 256 9 False]"
  by (simp add: enc_eval2)

text \<open>
  Claim C8, an instance: the input \<open>abc\<close> with dictionary size 4096; the codes 97 and 98
  are both nine bits wide.
\<close>

theorem C8_witness:
  "em_width (tl (emissions (lz78_new_c 4096) [97, 98, 99, EOF, EOF]) ! 0)
     \<le> em_width (tl (emissions (lz78_new_c 4096) [97, 98, 99, EOF, EOF]) ! Suc 0)"
  using C8_widths[of "[97, 98, 99, EOF, EOF]" 0 4096, unfolded emissions_abc]
  unfolding emissions_abc by (simp add: valid_in_def)

text \<open>
  Claim C10, an instance: the literal 99 in the codes of the input \<open>abc\<close>.
\<close>

theorem C10_witness:
  "em_code (Emission 99 9 False) < DICT_CODE_SIZE \<or> DICT_SIZE_MIN \<le> em_code (Emission 99 9 False)"
  using C10_codes[of "[97, 98, 99, EOF, EOF]" "Emission 99 9 False" 4096, unfolded emissions_abc]
  by (simp add: valid_in_def)

lemma replicate_2: "replicate 2 x = [x, x]" by (simp add: numeral_2_eq_2)

lemma compress_263:
  "lz78_compress 263 [0, 0, 1, 0, 1, 0, 1, 0, 1, 0, 0] =
     Some (le_bits 9 258 @ le_bits 21 263 @ le_bits 9 0 @ le_bits 9 0 @ le_bits 9 1 @
           le_bits 9 261 @ le_bits 9 260 @ le_bits 9 261 @ le_bits 9 0 @ le_bits 9 256 @
           [False, False])"
  unfolding lz78_compress_def
  by (simp add: compress_loop.simps enc_eval2 bit_write_def bit_close_def le_bits_numeral
                replicate_2)

lemma C9_state:
  "map_option (\<lambda>st. (cur_node (lz78_c.main st), ht_dictionary.d_next (lz78_c.main st),
                        ht_dictionary.d_size (lz78_c.main st)))
     (compress_bytes (lz78_new_c 263) [0, 0, 1, 0, 1, 0, 1, 0, 1, 0, 0]) = Some (0, 263, 263)"
  by (simp add: enc_eval2)

text \<open>
  Claim C4 as the specification words it does not hold: after the start marker, a size
  announcement for which \<open>dictionary_new\<close> finds no memory returns \<open>-1\<close>, and the main
  dictionary that existed before the call is gone.
\<close>

theorem C4_counterexample:
  "decompress_code (hp1\<lparr>dictionary_ok := False\<rparr>) (lz78_new_d hp1) DICT_CODE_START =
     Some (Inr (0, (lz78_new_d hp1)\<lparr>lz78_d.main :=
                     Some ((dictionary_new zero_dictionary DICT_SIZE_MIN)\<lparr>d_next := DICT_SIZE_MAX\<rparr>),
                   lz78_d.n_bits := 0\<rparr>)) \<and>
   decompress_code (hp1\<lparr>dictionary_ok := False\<rparr>)
       ((lz78_new_d hp1)\<lparr>lz78_d.main := Some ((dictionary_new zero_dictionary DICT_SIZE_MIN)\<lparr>d_next := DICT_SIZE_MAX\<rparr>),
                   lz78_d.n_bits := 0\<rparr>) 4096 =
     Some (Inr (- 1, (lz78_new_d hp1)\<lparr>lz78_d.main := None, lz78_d.n_bits := 0\<rparr>)) \<and>
   lz78_d.main ((lz78_new_d hp1)\<lparr>lz78_d.main := None, lz78_d.n_bits := 0\<rparr>) \<noteq>
   lz78_d.main ((lz78_new_d hp1)\<lparr>lz78_d.main :=
                     Some ((dictionary_new zero_dictionary DICT_SIZE_MIN)\<lparr>d_next := DICT_SIZE_MAX\<rparr>),
                   lz78_d.n_bits := 0\<rparr>)"
  by (simp add: decompress_code_def lz78_new_d_def hp1_def)

text \<open>
  Claim C4, an instance: on zeroed memory a data code before the start marker is refused
  and the state is unchanged.
\<close>

theorem C4_witness:
  "decompress_code hp1 (lz78_new_d hp1) 97 = Some (Inr (- 2, (lz78_new_d hp1))) \<and>
   ((- 2 :: int) = - 2 \<and> (lz78_new_d hp1) = (lz78_new_d hp1) \<or>
    (- 2 :: int) = - 1 \<and> lz78_d.main (lz78_new_d hp1) \<noteq> None \<and> lz78_d.main (lz78_new_d hp1) = None \<and>
      (lz78_d.secondary (lz78_new_d hp1) = lz78_d.secondary (lz78_new_d hp1) \<or> lz78_d.secondary (lz78_new_d hp1) = None) \<and>
      lz78_d.completed (lz78_new_d hp1) = lz78_d.completed (lz78_new_d hp1) \<and>
      lz78_d.bitbuf (lz78_new_d hp1) = lz78_d.bitbuf (lz78_new_d hp1) \<and>
      lz78_d.n_bits (lz78_new_d hp1) = lz78_d.n_bits (lz78_new_d hp1))"
proof -
  have h: "decompress_code hp1 (lz78_new_d hp1) 97 = Some (Inr (- 2, (lz78_new_d hp1)))"
    by (simp add: decompress_code_def lz78_new_d_def dictionary_new_def Let_def hp1_def
          zero_instance_def)
  from C4_terminal_errors[OF h] h show ?thesis by simp
qed

lemma le_val_97: "le_val (take 9 (le_bits 9 97)) = 97" "9 \<le> length (le_bits 9 97)"
  by (simp_all add: le_bits_numeral)

text \<open>
  Claim C3, an instance: the stream that consists of the code 97, on zeroed memory, and
  on memory in which only the pointer \<open>secondary\<close> is not null.
\<close>

theorem C3_witness:
  "decompress_code hp1 (lz78_new_d hp1) 97 = Some (Inr (- 2, lz78_new_d hp1)) \<and>
   lz78_decompress hp1 (le_bits 9 97) = Some (Inr LZ78_ERROR_DECOMPRESS, []) \<and>
   lz78_decompress (hp1\<lparr>instance_mem := zero_instance\<lparr>lz78_d.secondary := Some (ht_dictionary_new 0)\<rparr>\<rparr>)
     (le_bits 9 97) = Some (Inl Out_Of_Bounds, [])"
proof -
  have a: "decompress_code hp1 (lz78_new_d hp1) 97 = Some (Inr (- 2, lz78_new_d hp1))"
    using C3_decompress_error[where inp = "le_bits 9 97" and hp = hp1 and st = "lz78_new_d hp1"
        and code = 97 and st' = "lz78_new_d hp1"] le_val_97
    by (simp add: lz78_new_d_def dictionary_new_def Let_def hp1_def zero_instance_def)
  have b: "lz78_decompress hp1 (le_bits 9 97) = Some (Inr LZ78_ERROR_DECOMPRESS, [])"
    using C3_decompress_error[where inp = "le_bits 9 97" and hp = hp1] le_val_97
    by (simp add: hp1_def zero_instance_def zero_dictionary_def)
  have c: "lz78_decompress (hp1\<lparr>instance_mem := zero_instance\<lparr>lz78_d.secondary := Some (ht_dictionary_new 0)\<rparr>\<rparr>)
     (le_bits 9 97) = Some (Inl Out_Of_Bounds, [])"
    using C3_decompress_error[where inp = "le_bits 9 97"
        and hp = "hp1\<lparr>instance_mem := zero_instance\<lparr>lz78_d.secondary := Some (ht_dictionary_new 0)\<rparr>\<rparr>"]
      le_val_97
    by (simp add: hp1_def zero_instance_def zero_dictionary_def)
  from a b c show ?thesis by (intro conjI)
qed

lemma denotes_97: "denotes (root after_one_code) 263 97 [97]"
proof -
  have "denotes (root after_one_code) 263 97 [label (root after_one_code 97) mod 256]"
    by (rule denotes.literal) simp_all
  then show ?thesis by (simp add: after_one_code_def dictionary_new_def Let_def)
qed

text \<open>
  Claim C6, an instance: the code 260 while entry 260 is pending, which resolves to
  \<open>aa\<close>.
\<close>

theorem C6_witness:
  "\<exists>d' buf i.
      recover (root after_one_code) (d_size after_one_code) (bytebuf after_one_code)
        (bytebuf_size after_one_code) (d_size after_one_code - 1) 260 = Inr (buf, i) \<and>
      dictionary_update after_one_code 260 = Inr d' \<and>
      n_bytes d' = d_size after_one_code - 1 - i \<and> offset d' = d_size after_one_code - n_bytes d' \<and>
      published d' = [97, 97] \<and>
      bytebuf d' = (if d_min after_one_code \<le> 260 \<and> 260 = d_next after_one_code - 1
                    then buf(d_size after_one_code - 1 := buf (i + 1)) else buf) \<and>
      root d' = (if d_min after_one_code < d_next after_one_code
                 then (root after_one_code)(d_next after_one_code - 1 :=
                        (root after_one_code (d_next after_one_code - 1))\<lparr>label := bytebuf d' (i + 1)\<rparr>)
                 else root after_one_code)
                (d_next after_one_code := (root after_one_code (d_next after_one_code))\<lparr>parent := 260\<rparr>) \<and>
      d_next d' = d_next after_one_code + 1"
proof -
  have wf: "dict_wf after_one_code"
    by (simp add: dict_wf_def after_one_code_def dictionary_new_def Let_def DICT_LIMIT_def)
  have res: "resolves after_one_code 260 [97, 97]"
    using denotes_97
    by (simp add: resolves_def after_one_code_def dictionary_new_def Let_def DICT_LIMIT_def)
  have len: "length [97, 97 :: nat] < d_size after_one_code"
    by (simp add: after_one_code_def dictionary_new_def Let_def DICT_LIMIT_def)
  show ?thesis by (rule C6_dictionary_update[OF wf res len])
qed

lemma reach_main_before:
  "decompress_codes hp1 (lz78_new_d hp1) [258, 262, 97] =
     Some (Inr (0, (lz78_new_d hp1)\<lparr>lz78_d.main := Some main_before,
                              lz78_d.secondary := Some secondary_before\<rparr>))"
  by (simp add: dec_eval main_before_def secondary_before_def)

lemma reach_main_rotated:
  "map_option (map_sum id (\<lambda>(r, st). lz78_d.main st))
     (decompress_codes hp1 (lz78_new_d hp1) [258, 262, 97, 98]) = Some (Inr (Some main_rotated))"
  by (simp add: dec_eval hp1_def main_rotated_def main_full_def main_before_def fun_eq_iff)

text \<open>
  Claim C6 as the specification words it does not hold. In the main dictionary that the
  codes 258, 262, 97, 98 leave, \<open>d_min = d_next = 261\<close> and the code 260 resolves to \<open>ab\<close>.
  The code equals \<open>d_next - 1\<close>, and yet the first byte is not duplicated:
  \<open>bytebuf[d_size - 1]\<close> is 98 and \<open>bytebuf[i + 1]\<close> is 97. The loop ends with \<open>i = 259\<close>
  and \<open>n_bytes\<close> is 2, which is not \<open>d_size - i = 3\<close>; read with the local variable
  \<open>d_size = 261\<close> of the source instead, \<open>offset = 260\<close> is not \<open>d_size - n_bytes = 259\<close>.
\<close>

theorem C6_counterexample:
  "map_option (map_sum id (\<lambda>(r, st). lz78_d.main st))
     (decompress_codes hp1 (lz78_new_d hp1) [258, 262, 97, 98]) = Some (Inr (Some main_rotated)) \<and>
   resolves main_rotated 260 [97, 98] \<and> 260 = d_next main_rotated - 1 \<and>
   map_sum id snd (recover (root main_rotated) (d_size main_rotated) (bytebuf main_rotated)
                     (bytebuf_size main_rotated) (d_size main_rotated - 1) 260) = Inr 259 \<and>
   map_sum id (\<lambda>d'. (n_bytes d', offset d', published d', bytebuf d' (d_size main_rotated - 1),
                      bytebuf d' (259 + 1)))
     (dictionary_update main_rotated 260) = Inr (2, 260, [97, 98], 98, 97) \<and>
   (2 :: nat) \<noteq> d_size main_rotated - 259 \<and>
   (260 :: nat) \<noteq> (d_size main_rotated - 1) - 2"
proof -
  have "denotes (root main_rotated) 262 97 [label (root main_rotated 97) mod 256]"
    by (rule denotes.literal) simp_all
  then have "denotes (root main_rotated) 262 97 [97]"
    by (simp add: main_rotated_def main_full_def main_before_def dictionary_new_def Let_def)
  then have "denotes (root main_rotated) 262 260 ([97] @ [label (root main_rotated 260) mod 256])"
    by (intro denotes.dynamic) (simp_all add: main_rotated_def main_full_def)
  then have res: "resolves main_rotated 260 [97, 98]"
    by (simp add: resolves_def main_rotated_def main_full_def main_before_def dictionary_new_def
          Let_def DICT_LIMIT_def)
  have nxt: "260 = d_next main_rotated - 1"
    by (simp add: main_rotated_def)
  have rec: "map_sum id snd (recover (root main_rotated) (d_size main_rotated) (bytebuf main_rotated)
                     (bytebuf_size main_rotated) (d_size main_rotated - 1) 260) = Inr 259"
    by (simp add: dec_eval main_rotated_def main_full_def main_before_def)
  have upd: "map_sum id (\<lambda>d'. (n_bytes d', offset d', published d', bytebuf d' (d_size main_rotated - 1),
                      bytebuf d' (259 + 1)))
     (dictionary_update main_rotated 260) = Inr (2, 260, [97, 98], 98, 97)"
    by (simp add: dec_eval main_rotated_def main_full_def main_before_def)
  have ne: "(2 :: nat) \<noteq> d_size main_rotated - 259"
    by (simp add: dec_eval main_rotated_def main_full_def main_before_def)
  have ne2: "(260 :: nat) \<noteq> (d_size main_rotated - 1) - 2"
    by (simp add: dec_eval main_rotated_def main_full_def main_before_def)
  from reach_main_rotated res nxt rec upd ne ne2 show ?thesis by (intro conjI)
qed

text \<open>
  Claim C3 as the specification words it does not hold. With dictionary size 263, on
  zeroed memory, after the codes 97, 98, 99 and 260 the main dictionary has
  \<open>d_min = d_next = 261\<close>. The next code, 261, is not below \<open>d_next\<close> and is not
  \<open>d_next - 1\<close>; entry 261 is left from before the rotations. The decompressor writes \<open>bc\<close>
  for it and ends with \<open>LZ78_SUCCESS\<close>.
\<close>

theorem C3_counterexample:
  "map_option (map_sum id (\<lambda>(r, st). map_option (\<lambda>m. (d_min m, d_next m)) (lz78_d.main st)))
     (decompress_codes hp1 (lz78_new_d hp1) [258, 263, 97, 98, 99, 260]) = Some (Inr (Some (261, 261))) \<and>
   lz78_decompress hp1
     (le_bits 9 258 @ le_bits 21 263 @ le_bits 9 97 @ le_bits 9 98 @ le_bits 9 99 @
      le_bits 9 260 @ le_bits 9 261 @ le_bits 9 256) =
     Some (Inr LZ78_SUCCESS, [97, 98, 99, 97, 98, 98, 99])"
  by (simp add: dec_eval hp1_def lz78_decompress_def decompress_loop.simps le_bits_numeral)

text \<open>
  Claim C1 at the dictionary size 263 and the eleven bytes 0, 0, 1, 0, 1, 0, 1, 0, 1, 0, 0.
  The compressor returns a stream of ten fields. The decompressor, on zeroed memory,
  writes the first ten bytes; at the code for the eleventh its main dictionary has
  \<open>d_next = d_size = 263\<close> and \<open>dictionary_update\<close> stores the parent of the new entry in
  \<open>root[263]\<close>, outside the table of 263 entries.
\<close>

theorem C1_round_trip:
  "lz78_compress 263 [0, 0, 1, 0, 1, 0, 1, 0, 1, 0, 0] =
     Some (le_bits 9 258 @ le_bits 21 263 @ le_bits 9 0 @ le_bits 9 0 @ le_bits 9 1 @
           le_bits 9 261 @ le_bits 9 260 @ le_bits 9 261 @ le_bits 9 0 @ le_bits 9 256 @
           [False, False]) \<and>
   lz78_decompress hp1
     (le_bits 9 258 @ le_bits 21 263 @ le_bits 9 0 @ le_bits 9 0 @ le_bits 9 1 @
      le_bits 9 261 @ le_bits 9 260 @ le_bits 9 261 @ le_bits 9 0 @ le_bits 9 256 @
      [False, False]) = Some (Inl Out_Of_Bounds, [0, 0, 1, 0, 1, 0, 1, 0, 1, 0])"
  by (simp add: compress_263)
     (simp add: dec_eval hp1_def lz78_decompress_def decompress_loop.simps le_bits_numeral)

text \<open>
  Claim C9 at the same input. After the eleven bytes the compressor's main dictionary,
  which was the secondary one until the last swap, has \<open>d_next = d_size = 263\<close> and a
  current node that is a literal, so the next call of \<open>compress_byte\<close> calls
  \<open>ht_dictionary_update\<close> on it; after that call, here for \<open>EOF\<close>, \<open>d_next\<close> is 264. The
  test \<open>d_next == d_size\<close> for the swap is not met again.
\<close>

theorem C9_full_table:
  "map_option (\<lambda>st. (cur_node (lz78_c.main st), ht_dictionary.d_next (lz78_c.main st),
                        ht_dictionary.d_size (lz78_c.main st)))
     (compress_bytes (lz78_new_c 263) [0, 0, 1, 0, 1, 0, 1, 0, 1, 0, 0]) = Some (0, 263, 263) \<and>
   map_option (\<lambda>st. (ht_dictionary.d_next (lz78_c.main st), ht_dictionary.d_size (lz78_c.main st)))
     (compress_bytes (lz78_new_c 263) [0, 0, 1, 0, 1, 0, 1, 0, 1, 0, 0, EOF]) = Some (264, 263)"
  by (simp add: C9_state) (simp add: enc_eval2)

text \<open>
  Claim C7 at the dictionary size 264 and the fifteen bytes 0, 0, 1, 1, 0, 1, 0, 1, 0, 1,
  0, 0, 1, 0, 0. The compressor returns the codes 0, 0, 1, 1, 261, 260, 261, 262. In the
  decompressor, on zeroed memory, the update for the last code, 262, fills the main
  dictionary (\<open>d_next = d_size = 264\<close>); the four bytes of that code bring the secondary
  dictionary to \<open>d_next = 265\<close>, with the child 264 in slot 231; and the rotation, which
  copies every used entry to \<open>root[child]\<close> of the main table, stores outside its 264
  entries.
\<close>

theorem C7_rotation_out_of_bounds:
  "lz78_compress 264 [0, 0, 1, 1, 0, 1, 0, 1, 0, 1, 0, 0, 1, 0, 0] =
     Some (le_bits 9 258 @ le_bits 21 264 @ le_bits 9 0 @ le_bits 9 0 @ le_bits 9 1 @
           le_bits 9 1 @ le_bits 9 261 @ le_bits 9 260 @ le_bits 9 261 @ le_bits 9 262 @
           le_bits 9 256 @ [False]) \<and>
   (\<exists>st m s m1 s1.
      decompress_codes hp1 (lz78_new_d hp1) [258, 264, 0, 0, 1, 1, 261, 260, 261] =
        Some (Inr (0, st)) \<and>
      lz78_d.main st = Some m \<and> lz78_d.secondary st = Some s \<and>
      dictionary_update m 262 = Inr m1 \<and> d_thr m1 < d_next m1 \<and>
      d_next m1 = 264 \<and> d_size m1 = 264 \<and>
      ht_feed s (published m1) = Some s1 \<and> ht_dictionary.d_next s1 = 265 \<and>
      used (ht_dictionary.root s1 231) \<and> child (ht_dictionary.root s1 231) = 264 \<and>
      rotate m1 s1 = Inl Out_Of_Bounds \<and>
      decompress_code hp1 st 262 = Some (Inl Out_Of_Bounds)) \<and>
   lz78_decompress hp1
     (le_bits 9 258 @ le_bits 21 264 @ le_bits 9 0 @ le_bits 9 0 @ le_bits 9 1 @
      le_bits 9 1 @ le_bits 9 261 @ le_bits 9 260 @ le_bits 9 261 @ le_bits 9 262 @
      le_bits 9 256 @ [False]) = Some (Inl Out_Of_Bounds, [0, 0, 1, 1, 0, 1, 0, 1, 0, 1, 0])"
proof -
  have a: "lz78_compress 264 [0, 0, 1, 1, 0, 1, 0, 1, 0, 1, 0, 0, 1, 0, 0] =
     Some (le_bits 9 258 @ le_bits 21 264 @ le_bits 9 0 @ le_bits 9 0 @ le_bits 9 1 @
           le_bits 9 1 @ le_bits 9 261 @ le_bits 9 260 @ le_bits 9 261 @ le_bits 9 262 @
           le_bits 9 256 @ [False])"
    unfolding lz78_compress_def
    by (simp add: compress_loop.simps enc_eval2 bit_write_def bit_close_def le_bits_numeral)
  have b: "\<exists>st m s m1 s1.
      decompress_codes hp1 (lz78_new_d hp1) [258, 264, 0, 0, 1, 1, 261, 260, 261] =
        Some (Inr (0, st)) \<and>
      lz78_d.main st = Some m \<and> lz78_d.secondary st = Some s \<and>
      dictionary_update m 262 = Inr m1 \<and> d_thr m1 < d_next m1 \<and>
      d_next m1 = 264 \<and> d_size m1 = 264 \<and>
      ht_feed s (published m1) = Some s1 \<and> ht_dictionary.d_next s1 = 265 \<and>
      used (ht_dictionary.root s1 231) \<and> child (ht_dictionary.root s1 231) = 264 \<and>
      rotate m1 s1 = Inl Out_Of_Bounds \<and>
      decompress_code hp1 st 262 = Some (Inl Out_Of_Bounds)"
    by (simp add: dec_eval)
  have c: "lz78_decompress hp1
     (le_bits 9 258 @ le_bits 21 264 @ le_bits 9 0 @ le_bits 9 0 @ le_bits 9 1 @
      le_bits 9 1 @ le_bits 9 261 @ le_bits 9 260 @ le_bits 9 261 @ le_bits 9 262 @
      le_bits 9 256 @ [False]) = Some (Inl Out_Of_Bounds, [0, 0, 1, 1, 0, 1, 0, 1, 0, 1, 0])"
    by (simp add: dec_eval lz78_decompress_def decompress_loop.simps le_bits_numeral)
  from a b c show ?thesis by (intro conjI)
qed

lemma set_used_slots:
  "set (used_slots t) = {i. i < ht_dictionary.d_size t \<and> used (ht_dictionary.root t i)}"
  by (auto simp: used_slots_def)

lemma length_used_slots:
  "length (used_slots t) = card {i. i < ht_dictionary.d_size t \<and> used (ht_dictionary.root t i)}"
proof -
  have "distinct (used_slots t)" by (simp add: used_slots_def)
  from distinct_card[OF this] show ?thesis by (simp add: set_used_slots)
qed

lemma set_pairs:
  "set (pairs t) = {(ht_entry.parent (ht_dictionary.root t i), ht_entry.label (ht_dictionary.root t i)) | i.
                      i < ht_dictionary.d_size t \<and> used (ht_dictionary.root t i)}"
  by (auto simp: pairs_def set_used_slots)

lemma set_pairs_image:
  "set (pairs t) = (\<lambda>i. (ht_entry.parent (ht_dictionary.root t i), ht_entry.label (ht_dictionary.root t i))) `
                     {i. i < ht_dictionary.d_size t \<and> used (ht_dictionary.root t i)}"
  by (simp add: pairs_def set_used_slots)

lemma free_slot:
  assumes "length (used_slots t) < ht_dictionary.d_size t"
  shows "\<exists>f < ht_dictionary.d_size t. \<not> used (ht_dictionary.root t f)"
proof (rule ccontr)
  assume "\<not> ?thesis"
  then have "filter (\<lambda>i. used (ht_dictionary.root t i)) [0..<ht_dictionary.d_size t] =
             [0..<ht_dictionary.d_size t]"
    by (simp add: filter_id_conv)
  with assms show False by (simp add: used_slots_def)
qed

lemma no_free_slot:
  assumes "length (used_slots t) = ht_dictionary.d_size t" and "i < ht_dictionary.d_size t"
  shows "used (ht_dictionary.root t i)"
proof (rule ccontr)
  assume "\<not> ?thesis"
  with assms(2) have "length (filter (\<lambda>i. used (ht_dictionary.root t i)) [0..<ht_dictionary.d_size t])
                       < length [0..<ht_dictionary.d_size t]"
    by (intro length_filter_less[of i]) simp_all
  with assms(1) show False by (simp add: used_slots_def)
qed

text \<open>The probe loop returns when a slot is free.\<close>

lemma ht_search_reaches:
  assumes "\<not> used (rt ((h + d) mod ds))" and "h < ds"
  shows "\<exists>y. ht_search rt ds cur lab h = Some y"
  using assms
proof (induction d arbitrary: h)
  case 0
  then have "\<not> used (rt h)" by simp
  then have "ht_search rt ds cur lab h = Some (False, h)"
    by (simp add: ht_search.simps[of rt ds cur lab h])
  then show ?case by blast
next
  case (Suc d)
  have "((h + 1) mod ds + d) mod ds = (h + Suc d) mod ds"
    by (simp add: mod_add_left_eq)
  with Suc.prems(1) have "\<not> used (rt (((h + 1) mod ds + d) mod ds))" by simp
  moreover have "(h + 1) mod ds < ds" using Suc.prems(2) by simp
  ultimately obtain y where "ht_search rt ds cur lab ((h + 1) mod ds) = Some y"
    using Suc.IH by blast
  then show ?case by (auto simp: ht_search.simps[of rt ds cur lab h])
qed

lemma ht_search_terminates:
  assumes "f < ds" and "\<not> used (rt f)" and "h < ds"
  shows "\<exists>y. ht_search rt ds cur lab h = Some y"
proof -
  have "h + (f + ds - h) = f + ds" using assms(3) by simp
  then have "(h + (f + ds - h)) mod ds = f" using assms(1) by simp
  with assms(2) have "\<not> used (rt ((h + (f + ds - h)) mod ds))" by simp
  from ht_search_reaches[of rt h "f + ds - h" ds cur lab, OF this assms(3)] show ?thesis .
qed

text \<open>The probe loop does not return on a full table that does not hold the pair.\<close>

lemma ht_search_full:
  assumes "\<forall>i<ds. used (rt i) \<and> \<not> (ht_entry.parent (rt i) = cur \<and> ht_entry.label (rt i) = lab)"
    and "h < ds"
  shows "ht_search rt ds cur lab h = None"
proof (cases "ht_search rt ds cur lab h")
  case None
  then show ?thesis .
next
  case (Some y)
  from ht_search_result[OF Some] assms have False by (cases "fst y") auto
  then show ?thesis ..
qed

lemma ht_hash_less: "0 < ds \<Longrightarrow> ht_hash ds lab cur < ds"
  by (simp add: ht_hash_def)

lemma ht_update_full:
  assumes "cur_node d \<noteq> NO_NODE" and "0 < ht_dictionary.d_size d"
    and "length (used_slots d) = ht_dictionary.d_size d"
    and "(cur_node d, lab) \<notin> set (pairs d)"
  shows "ht_dictionary_update d lab = None"
proof -
  have "\<forall>i<ht_dictionary.d_size d. used (ht_dictionary.root d i) \<and>
          \<not> (ht_entry.parent (ht_dictionary.root d i) = cur_node d \<and>
              ht_entry.label (ht_dictionary.root d i) = lab)"
    using no_free_slot[OF assms(3)] assms(4) by (auto simp: set_pairs)
  from ht_search_full[OF this ht_hash_less[OF assms(2)]] assms(1) show ?thesis
    by (simp add: ht_dictionary_update_def Let_def)
qed

lemma ht_update_total:
  assumes "length (used_slots d) < ht_dictionary.d_size d"
  shows "\<exists>r d'. ht_dictionary_update d lab = Some (r, d') \<and>
           ht_dictionary.d_size d' = ht_dictionary.d_size d \<and>
           length (used_slots d') \<le> length (used_slots d) + 1"
proof -
  from free_slot[OF assms] obtain f where f: "f < ht_dictionary.d_size d" "\<not> used (ht_dictionary.root d f)"
    by blast
  then have pos: "0 < ht_dictionary.d_size d" by simp
  obtain r d' where upd: "ht_dictionary_update d lab = Some (r, d')"
  proof (cases "cur_node d = NO_NODE")
    case True
    then show thesis by (intro that) (simp add: ht_dictionary_update_def Let_def)
  next
    case False
    from ht_search_terminates[where rt = "ht_dictionary.root d" and cur = "cur_node d" and lab = lab,
         OF f ht_hash_less[OF pos, of lab "cur_node d"]]
    obtain y where "ht_search (ht_dictionary.root d) (ht_dictionary.d_size d) (cur_node d) lab
                      (ht_hash (ht_dictionary.d_size d) lab (cur_node d)) = Some y" by blast
    with False show thesis
      by (cases y; cases "fst y") (auto intro!: that simp: ht_dictionary_update_def Let_def)
  qed
  have ds: "ht_dictionary.d_size d' = ht_dictionary.d_size d" by (rule ht_update_cases(3)[OF upd])
  let ?A = "{i. i < ht_dictionary.d_size d \<and> used (ht_dictionary.root d i)}"
  let ?A' = "{i. i < ht_dictionary.d_size d' \<and> used (ht_dictionary.root d' i)}"
  let ?B = "{k. \<not> used (ht_dictionary.root d k) \<and> used (ht_dictionary.root d' k) \<and>
                k < ht_dictionary.d_size d}"
  have sub: "?A' \<subseteq> ?A \<union> ?B" using ds by auto
  have cardB: "card ?B \<le> 1"
  proof -
    from ht_update_cases(1)[OF upd] consider "ht_dictionary.root d' = ht_dictionary.root d"
      | k e where "ht_dictionary.root d' = (ht_dictionary.root d)(k := e)" by auto
    then show ?thesis
    proof cases
      case 1
      then have "?B = {}" by auto
      then show ?thesis by (simp only: card.empty le0)
    next
      case 2
      then have "?B \<subseteq> {k}" by auto
      then have "card ?B \<le> card {k}" by (intro card_mono) simp_all
      then show ?thesis by simp
    qed
  qed
  have fin: "finite (?A \<union> ?B)" by simp
  have "card ?A' \<le> card (?A \<union> ?B)" by (rule card_mono[OF fin sub])
  also have "\<dots> \<le> card ?A + card ?B" by (rule card_Un_le)
  also have "\<dots> \<le> card ?A + 1" using cardB by simp
  finally have "card ?A' \<le> card ?A + 1" .
  with upd ds show ?thesis by (auto simp: length_used_slots)
qed

lemma ht_update_fresh:
  assumes "cur_node d \<noteq> NO_NODE" and "length (used_slots d) < ht_dictionary.d_size d"
    and "(cur_node d, lab) \<notin> set (pairs d)"
  shows "\<exists>d'. ht_dictionary_update d lab = Some (0, d') \<and> cur_node d' = lab \<and>
           prev_node d' = cur_node d \<and>
           ht_dictionary.d_next d' = ht_dictionary.d_next d + 1 \<and>
           ht_dictionary.d_size d' = ht_dictionary.d_size d \<and>
           ht_dictionary.d_thr d' = ht_dictionary.d_thr d \<and>
           length (used_slots d') = length (used_slots d) + 1 \<and>
           set (pairs d') = insert (cur_node d, lab) (set (pairs d))"
proof -
  let ?ds = "ht_dictionary.d_size d" and ?rt = "ht_dictionary.root d"
  from free_slot[OF assms(2)] obtain f where f: "f < ?ds" "\<not> used (?rt f)" by blast
  then have pos: "0 < ?ds" by simp
  from ht_search_terminates[where rt = "ht_dictionary.root d" and cur = "cur_node d" and lab = lab,
         OF f ht_hash_less[OF pos, of lab "cur_node d"]]
  obtain y where y: "ht_search ?rt ?ds (cur_node d) lab (ht_hash ?ds lab (cur_node d)) = Some y"
    by blast
  from ht_search_result[OF y] pos ht_hash_less[OF pos] have k: "snd y < ?ds"
    and res: "fst y \<longrightarrow> used (?rt (snd y)) \<and> ht_entry.parent (?rt (snd y)) = cur_node d \<and>
                ht_entry.label (?rt (snd y)) = lab"
    "\<not> fst y \<longrightarrow> \<not> used (?rt (snd y))"
    by auto
  from res(1) k assms(3) have nf: "\<not> fst y" by (auto simp: set_pairs)
  with res(2) have free: "\<not> used (?rt (snd y))" by simp
  let ?e = "\<lparr>used = True, parent = cur_node d, label = lab, child = ht_dictionary.d_next d\<rparr>"
  let ?d' = "d\<lparr>prev_node := cur_node d, ht_dictionary.root := ?rt(snd y := ?e), cur_node := lab,
               ht_dictionary.d_next := ht_dictionary.d_next d + 1\<rparr>"
  from y nf assms(1) have upd: "ht_dictionary_update d lab = Some (0, ?d')"
    by (cases y) (simp add: ht_dictionary_update_def Let_def)
  have sl: "{i. i < ?ds \<and> used ((?rt(snd y := ?e)) i)} = insert (snd y) {i. i < ?ds \<and> used (?rt i)}"
    using k by auto
  have "card (insert (snd y) {i. i < ?ds \<and> used (?rt i)}) = Suc (card {i. i < ?ds \<and> used (?rt i)})"
    using free by (intro card_insert_disjoint) simp_all
  with sl have len: "length (used_slots ?d') = length (used_slots d) + 1"
    by (simp add: length_used_slots)
  have "(\<lambda>i. (ht_entry.parent ((?rt(snd y := ?e)) i), ht_entry.label ((?rt(snd y := ?e)) i))) `
          {i. i < ?ds \<and> used (?rt i)} =
        (\<lambda>i. (ht_entry.parent (?rt i), ht_entry.label (?rt i))) ` {i. i < ?ds \<and> used (?rt i)}"
    using free by (intro image_cong) auto
  with sl have prs: "set (pairs ?d') = insert (cur_node d, lab) (set (pairs d))"
    by (simp add: set_pairs_image)
  from upd len prs show ?thesis by (intro exI[of _ ?d']) simp
qed

lemma compress_byte_overfull:
  assumes inv: "overfull D st" and c: "0 \<le> c" "c \<le> 255"
    and fresh: "(cur_node (lz78_c.main st), nat c) \<notin> set (pairs (lz78_c.main st))"
    and room: "length (used_slots (lz78_c.main st)) < D" "length (used_slots (lz78_c.secondary st)) < D"
  shows "\<exists>st'. compress_byte (drain st) c = Some st' \<and> overfull D st' \<and>
           cur_node (lz78_c.main st') = nat c \<and>
           length (used_slots (lz78_c.main st')) = length (used_slots (lz78_c.main st)) + 1 \<and>
           set (pairs (lz78_c.main st')) =
             insert (cur_node (lz78_c.main st), nat c) (set (pairs (lz78_c.main st))) \<and>
           length (used_slots (lz78_c.secondary st')) \<le> length (used_slots (lz78_c.secondary st)) + 1"
proof -
  let ?m = "lz78_c.main st" and ?s = "lz78_c.secondary st"
  from inv have i: "\<not> lz78_c.completed st" "ht_dictionary.d_size ?m = D" "ht_dictionary.d_size ?s = D"
    "0 < D" "D \<le> ht_dictionary.d_next ?m" "ht_dictionary.d_thr ?m \<le> D" "cur_node ?m < 256"
    by (simp_all add: overfull_def)
  from c have u: "u16 c = nat c" "c \<noteq> EOF" by (simp_all add: u16_def)
  from i(7) have cur: "cur_node ?m \<noteq> NO_NODE" by simp
  from ht_update_fresh[OF cur _ fresh] room(1) i(2)
  obtain m' where m': "ht_dictionary_update ?m (nat c) = Some (0, m')" "cur_node m' = nat c"
    "ht_dictionary.d_next m' = ht_dictionary.d_next ?m + 1" "ht_dictionary.d_size m' = D"
    "ht_dictionary.d_thr m' = ht_dictionary.d_thr ?m"
    "length (used_slots m') = length (used_slots ?m) + 1"
    "set (pairs m') = insert (cur_node ?m, nat c) (set (pairs ?m))"
    by auto
  from ht_update_total[of ?s "nat c"] room(2) i(3)
  obtain r s' where s': "ht_dictionary_update ?s (nat c) = Some (r, s')" "ht_dictionary.d_size s' = D"
    "length (used_slots s') \<le> length (used_slots ?s) + 1"
    by auto
  let ?st' = "(drain st)\<lparr>lz78_c.bitbuf := prev_node m',
                lz78_c.n_bits := bitlen (sub1 (ht_dictionary.d_next m')),
                lz78_c.main := m', lz78_c.secondary := s'\<rparr>"
  have "compress_byte (drain st) c = Some ?st'"
    using i u m' s' c by (simp add: compress_byte_def compress_update_def Let_def)
  moreover have "overfull D ?st'"
    using i m' s' c by (simp add: overfull_def)
  ultimately show ?thesis using m' s' by (intro exI[of _ ?st']) simp
qed

lemma compress_byte_stuck:
  assumes inv: "overfull D st" and c: "valid_in c"
    and fresh: "(cur_node (lz78_c.main st), u16 (if c = EOF then int DICT_CODE_EOF else c))
                  \<notin> set (pairs (lz78_c.main st))"
    and full: "length (used_slots (lz78_c.main st)) = D"
  shows "compress_byte (drain st) c = None"
proof -
  let ?m = "lz78_c.main st"
  from inv have i: "ht_dictionary.d_size ?m = D" "0 < D" "cur_node ?m < 256"
    by (simp_all add: overfull_def)
  from i(3) have cur: "cur_node ?m \<noteq> NO_NODE" by simp
  have "ht_dictionary_update ?m (u16 (if c = EOF then int DICT_CODE_EOF else c)) = None"
    by (rule ht_update_full[OF cur _ _ fresh]) (simp_all add: i full)
  with i show ?thesis by (simp add: compress_byte_def compress_update_def)
qed

lemma compress_loop_Cons:
  "compress_loop st (c # cs) out =
     (case compress_byte (drain st) c of
        None \<Rightarrow> None
      | Some st' \<Rightarrow>
          if lz78_c.completed st' then Some (bit_close (bit_write out (lz78_c.bitbuf st) (lz78_c.n_bits st)))
          else compress_loop st' cs (bit_write out (lz78_c.bitbuf st) (lz78_c.n_bits st)))"
  by (subst compress_loop.simps) (auto split: option.splits)

lemma compress_loop_Nil:
  "compress_loop st [] out =
     (case compress_byte (drain st) EOF of
        None \<Rightarrow> None
      | Some st' \<Rightarrow>
          if lz78_c.completed st' then Some (bit_close (bit_write out (lz78_c.bitbuf st) (lz78_c.n_bits st)))
          else compress_loop st' [] (bit_write out (lz78_c.bitbuf st) (lz78_c.n_bits st)))"
  by (subst compress_loop.simps) (auto split: option.splits)

lemma compress_loop_overfull:
  assumes "overfull D st" and "\<forall>b \<in> set bs. 0 \<le> b \<and> b \<le> 255"
    and "distinct (zip (cur_node (lz78_c.main st) # map nat bs) (map nat bs))"
    and "set (zip (cur_node (lz78_c.main st) # map nat bs) (map nat bs)) \<inter> set (pairs (lz78_c.main st)) = {}"
    and "length (used_slots (lz78_c.main st)) + length bs \<le> D"
    and "length (used_slots (lz78_c.secondary st)) + length bs \<le> D"
  shows "\<exists>st' out'. compress_loop st (bs @ rest) out = compress_loop st' rest out' \<and> overfull D st' \<and>
           cur_node (lz78_c.main st') = last (cur_node (lz78_c.main st) # map nat bs) \<and>
           length (used_slots (lz78_c.main st')) = length (used_slots (lz78_c.main st)) + length bs \<and>
           set (pairs (lz78_c.main st')) =
             set (pairs (lz78_c.main st)) \<union>
             set (zip (cur_node (lz78_c.main st) # map nat bs) (map nat bs))"
  using assms
proof (induction bs arbitrary: st out)
  case Nil
  then show ?case by auto
next
  case (Cons b bs)
  let ?c0 = "cur_node (lz78_c.main st)"
  from Cons.prems(2) have b: "0 \<le> b" "b \<le> 255" and bs: "\<forall>b \<in> set bs. 0 \<le> b \<and> b \<le> 255"
    by simp_all
  from Cons.prems(3) have d1: "(?c0, nat b) \<notin> set (zip (nat b # map nat bs) (map nat bs))"
    and d2: "distinct (zip (nat b # map nat bs) (map nat bs))" by simp_all
  from Cons.prems(4) have f1: "(?c0, nat b) \<notin> set (pairs (lz78_c.main st))"
    and f2: "set (zip (nat b # map nat bs) (map nat bs)) \<inter> set (pairs (lz78_c.main st)) = {}"
    by simp_all
  from Cons.prems(5,6) have r: "length (used_slots (lz78_c.main st)) < D"
    "length (used_slots (lz78_c.secondary st)) < D" by simp_all
  from compress_byte_overfull[OF Cons.prems(1) b f1 r]
  obtain st1 where st1: "compress_byte (drain st) b = Some st1" "overfull D st1"
    "cur_node (lz78_c.main st1) = nat b"
    "length (used_slots (lz78_c.main st1)) = length (used_slots (lz78_c.main st)) + 1"
    "set (pairs (lz78_c.main st1)) = insert (?c0, nat b) (set (pairs (lz78_c.main st)))"
    "length (used_slots (lz78_c.secondary st1)) \<le> length (used_slots (lz78_c.secondary st)) + 1"
    by blast
  have step: "compress_loop st ((b # bs) @ rest) out =
              compress_loop st1 (bs @ rest) (bit_write out (lz78_c.bitbuf st) (lz78_c.n_bits st))"
    using st1(1,2) by (simp add: compress_loop_Cons overfull_def)
  have "\<exists>st' out'. compress_loop st1 (bs @ rest) (bit_write out (lz78_c.bitbuf st) (lz78_c.n_bits st)) =
          compress_loop st' rest out' \<and> overfull D st' \<and>
          cur_node (lz78_c.main st') = last (cur_node (lz78_c.main st1) # map nat bs) \<and>
          length (used_slots (lz78_c.main st')) = length (used_slots (lz78_c.main st1)) + length bs \<and>
          set (pairs (lz78_c.main st')) =
            set (pairs (lz78_c.main st1)) \<union> set (zip (cur_node (lz78_c.main st1) # map nat bs) (map nat bs))"
  proof (rule Cons.IH[OF st1(2) bs])
    show "distinct (zip (cur_node (lz78_c.main st1) # map nat bs) (map nat bs))"
      using d2 st1(3) by simp
    show "set (zip (cur_node (lz78_c.main st1) # map nat bs) (map nat bs)) \<inter>
          set (pairs (lz78_c.main st1)) = {}"
      using f2 d1 st1(3,5) by auto
    show "length (used_slots (lz78_c.main st1)) + length bs \<le> D"
      using Cons.prems(5) st1(4) by simp
    show "length (used_slots (lz78_c.secondary st1)) + length bs \<le> D"
      using Cons.prems(6) st1(6) by simp
  qed
  then obtain st' out' where
    "compress_loop st1 (bs @ rest) (bit_write out (lz78_c.bitbuf st) (lz78_c.n_bits st)) =
          compress_loop st' rest out'" "overfull D st'"
    "cur_node (lz78_c.main st') = last (cur_node (lz78_c.main st1) # map nat bs)"
    "length (used_slots (lz78_c.main st')) = length (used_slots (lz78_c.main st1)) + length bs"
    "set (pairs (lz78_c.main st')) =
       set (pairs (lz78_c.main st1)) \<union> set (zip (cur_node (lz78_c.main st1) # map nat bs) (map nat bs))"
    by blast
  with step st1(3,4,5) show ?case
    by (intro exI[of _ st'] exI[of _ out']) auto
qed

lemma filter_upt_eq:
  assumes "sorted_wrt (<) xs" and "\<And>i. i \<in> set xs \<longleftrightarrow> i < n \<and> P i"
  shows "filter P [0..<n] = xs"
proof (rule strict_sorted_equal)
  show "sorted_wrt (<) (filter P [0..<n])" by (simp add: sorted_wrt_filter)
  show "sorted_wrt (<) xs" by (rule assms(1))
  show "set (filter P [0..<n]) = set xs" using assms(2) by auto
qed

lemma prefix_run:
  "compress_loop (lz78_new_c 263) ([0, 0, 1, 0, 1, 0, 1, 0, 1, 0, 0] @ rest) [] =
   compress_loop full_start rest
     (le_bits 9 258 @ le_bits 21 263 @ le_bits 9 0 @ le_bits 9 0 @ le_bits 9 1 @ le_bits 9 261 @
      le_bits 9 260)"
  by (simp add: compress_loop_Cons enc_eval2 full_start_def bit_write_def le_bits_numeral)

lemma used_slots_full_start:
  "used_slots (lz78_c.main full_start) = [74, 169, 187]"
  "used_slots (lz78_c.secondary full_start) = []"
  unfolding used_slots_def
  by (rule filter_upt_eq; auto simp: full_start_def ht_zero_def ht_dictionary_new_def Let_def
        DICT_LIMIT_def)+

lemma pairs_full_start: "pairs (lz78_c.main full_start) = [(0, 1), (1, 0), (260, 0)]"
  unfolding pairs_def used_slots_full_start by (simp add: full_start_def)

lemma overfull_full_start: "overfull 263 full_start"
  by (simp add: overfull_def full_start_def lz78_new_c_def ht_dictionary_new_def Let_def
        DICT_LIMIT_def DICT_SIZE_THRESHOLD_def)

lemma cur_full_start: "cur_node (lz78_c.main full_start) = 0"
  by (simp add: full_start_def)

lemma filler_bytes: "\<forall>b \<in> set filler. 0 \<le> b \<and> b \<le> 255"
  by (auto simp: filler_def)

lemma length_filler: "length filler = 260"
  by (simp add: filler_def length_concat comp_def sum_list_triv)

lemma filler_fresh:
  "distinct (zip (0 # map nat filler) (map nat filler))"
  "(0, 256) \<notin> set (zip (0 # map nat filler) (map nat filler))"
  "(0, Suc 0) \<notin> set (zip (0 # map nat filler) (map nat filler))"
  "(Suc 0, 0) \<notin> set (zip (0 # map nat filler) (map nat filler))"
  "(260, 0) \<notin> set (zip (0 # map nat filler) (map nat filler))"
  "last (0 # map nat filler) = 0"
  by (simp_all add: filler_def)

text \<open>
  With the 260 further bytes the main dictionary of the compressor holds 263 pairs in
  its 263 slots, and the pair for the end of the input is not among them: the probe loop
  of \<open>ht_dictionary_update\<close> has no exit and \<open>lz78_compress\<close> does not return.
\<close>

theorem compress_never_returns:
  "lz78_compress 263 ([0, 0, 1, 0, 1, 0, 1, 0, 1, 0, 0] @ filler) = None"
proof -
  let ?out0 = "le_bits 9 258 @ le_bits 21 263 @ le_bits 9 0 @ le_bits 9 0 @ le_bits 9 1 @
               le_bits 9 261 @ le_bits 9 260"
  have "\<exists>st' out'. compress_loop full_start (filler @ []) ?out0 = compress_loop st' [] out' \<and>
          overfull 263 st' \<and>
          cur_node (lz78_c.main st') = last (cur_node (lz78_c.main full_start) # map nat filler) \<and>
          length (used_slots (lz78_c.main st')) =
            length (used_slots (lz78_c.main full_start)) + length filler \<and>
          set (pairs (lz78_c.main st')) =
            set (pairs (lz78_c.main full_start)) \<union>
            set (zip (cur_node (lz78_c.main full_start) # map nat filler) (map nat filler))"
    by (rule compress_loop_overfull[OF overfull_full_start filler_bytes])
       (simp_all add: cur_full_start pairs_full_start used_slots_full_start length_filler
          filler_fresh)
  then obtain st' out' where run': "compress_loop full_start (filler @ []) ?out0 = compress_loop st' [] out'"
    and inv: "overfull 263 st'"
    and cur': "cur_node (lz78_c.main st') = last (cur_node (lz78_c.main full_start) # map nat filler)"
    and len': "length (used_slots (lz78_c.main st')) =
                 length (used_slots (lz78_c.main full_start)) + length filler"
    and prs': "set (pairs (lz78_c.main st')) =
                 set (pairs (lz78_c.main full_start)) \<union>
                 set (zip (cur_node (lz78_c.main full_start) # map nat filler) (map nat filler))"
    by blast
  from run' have run: "compress_loop full_start filler ?out0 = compress_loop st' [] out'"
    by (simp only: append_Nil2)
  have cur: "cur_node (lz78_c.main st') = 0"
    unfolding cur' cur_full_start by (rule filler_fresh(6))
  have len: "length (used_slots (lz78_c.main st')) = 263"
    unfolding len' by (simp add: used_slots_full_start length_filler)
  have prs: "set (pairs (lz78_c.main st')) =
               set [(0, 1), (1, 0), (260, 0)] \<union> set (zip (0 # map nat filler) (map nat filler))"
    unfolding prs' cur_full_start pairs_full_start ..
  have "compress_byte (drain st') EOF = None"
  proof (rule compress_byte_stuck[OF inv _ _ len])
    show "valid_in EOF" by (simp add: valid_in_def)
    show "(cur_node (lz78_c.main st'), u16 (if EOF = EOF then int DICT_CODE_EOF else EOF))
            \<notin> set (pairs (lz78_c.main st'))"
      using filler_fresh(2) by (simp add: cur prs u16_def)
  qed
  then have "compress_loop st' [] out' = None" by (simp add: compress_loop_Nil)
  with run have "compress_loop full_start filler ?out0 = None" by simp
  then show ?thesis unfolding lz78_compress_def prefix_run .
qed

end
